theory Spec2Isabelle
  imports Main "HOL-Library.Word"
begin

unbundle bit_operations_syntax

section \<open>Machine integers\<close>

text \<open>
  Go's \<^verbatim>\<open>uint64\<close> mantissas are natural numbers below \<open>2 ^ 64\<close>; every
  operation that can leave that range is wrapped with \<open>u64\<close>.  The exponent type
  \<^verbatim>\<open>int32\<close> and Go's 64-bit \<^verbatim>\<open>int\<close> are integers wrapped with \<open>i32\<close> and
  \<open>i64\<close> (two's complement).  A packed \<^verbatim>\<open>Value\<close> is a 64-bit word.
\<close>

type_synonym number = nat
type_synonym expType = int
type_synonym Value = "64 word"

definition u64 :: "nat \<Rightarrow> nat" where
  "u64 n = n mod 2 ^ 64"

definition i32 :: "int \<Rightarrow> int" where
  "i32 x = (x + 2 ^ 31) mod 2 ^ 32 - 2 ^ 31"

definition i64 :: "int \<Rightarrow> int" where
  "i64 x = (x + 2 ^ 63) mod 2 ^ 64 - 2 ^ 63"

section \<open>Faults and errors\<close>

text \<open>
  \<open>DivisionByZero\<close> is the explicit \<^verbatim>\<open>panic("division by zero")\<close> of
  \<^verbatim>\<open>divMod\<close> and \<^verbatim>\<open>float64Div\<close>; \<open>IntegerDivideByZero\<close> is Go's run-time panic
  of \<^verbatim>\<open>/\<close> and \<^verbatim>\<open>%\<close> on a zero divisor; \<open>Div64Overflow\<close> is the panic of
  \<^verbatim>\<open>bits.Div64\<close> when the divisor is zero or not above the high word;
  \<open>ParseUintPanic\<close> is the \<^verbatim>\<open>panic(err)\<close> of \<^verbatim>\<open>fromStringAndExp\<close>.
  The remaining constructors are the error values returned by \<^verbatim>\<open>FromString\<close> and
  \<^verbatim>\<open>FromFloat64\<close>.
\<close>

datatype parseMsg = UnexpectedSymbol char | UnexpectedDelimeter | ErrorParsingExponent

record posError =
  pos :: int
  err :: parseMsg

datatype error =
    DivisionByZero
  | IntegerDivideByZero
  | Div64Overflow
  | ParseUintPanic
  | EmptyInput
  | NegativeValue
  | BadFloatNumber
  | ParsingFailed posError

section \<open>Constants of the packed representation\<close>

definition signBit :: nat where "signBit = 0"
definition expBits :: nat where "expBits = 8"
definition bitsInNumber :: nat where "bitsInNumber = 64"
definition mantBits :: nat where "mantBits = bitsInNumber - expBits - signBit"

definition bias :: int where "bias = - (2 ^ (expBits - 1) - 1)"
definition maxExponent :: int where "maxExponent = 2 ^ (expBits - 1)"
definition minExponent :: int where "minExponent = bias"

definition expMask :: nat where "expMask = 2 ^ expBits - 1"
definition mantMask :: nat where "mantMask = 2 ^ mantBits - 1"

definition maxMantissa :: nat where "maxMantissa = mantMask"
definition minMantissa :: nat where "minMantissa = 1"
definition maxNumber :: nat where "maxNumber = 2 ^ bitsInNumber - 1"

definition zero :: Value where "zero = 0"

definition exp :: "Value \<Rightarrow> expType" where
  "exp v = i32 (i32 (uint (drop_bit mantBits v AND word_of_nat expMask)) + bias)"

definition mant :: "Value \<Rightarrow> number" where
  "mant v = unat (v AND word_of_nat mantMask)"

definition split :: "Value \<Rightarrow> number \<times> expType" where
  "split v = (mant v, exp v)"

definition fromMantAndExp :: "number \<Rightarrow> expType \<Rightarrow> Value" where
  "fromMantAndExp m e =
     push_bit mantBits (word_of_int (i32 (e - bias))) OR (word_of_nat m AND word_of_nat mantMask)"

text \<open>\<^verbatim>\<open>Max\<close> and \<^verbatim>\<open>Min\<close> of the source (renamed: the names are taken in HOL).\<close>

definition MaxValue :: Value where
  "MaxValue = fromMantAndExp maxMantissa maxExponent"

definition MinValue :: Value where
  "MinValue = fromMantAndExp minMantissa minExponent"

section \<open>Arithmetic kernel\<close>

definition decimalFactorTable :: "nat list" where
  "decimalFactorTable =
     [1, 10, 100, 1000, 10000,
      100000, 1000000, 10000000, 100000000, 1000000000, 10000000000,
      100000000000, 1000000000000, 10000000000000, 100000000000000,
      1000000000000000, 10000000000000000, 100000000000000000,
      1000000000000000000, 10000000000000000000]"

definition digitsHelper :: "nat list" where
  "digitsHelper =
     [0, 0, 0, 0, 1, 1, 1, 2, 2, 2,
      3, 3, 3, 3, 4, 4, 4, 5, 5, 5,
      6, 6, 6, 6, 7, 7, 7, 8, 8, 8,
      9, 9, 9, 9, 10, 10, 10, 11, 11, 11,
      12, 12, 12, 12, 13, 13, 13, 14, 14, 14,
      15, 15, 15, 15, 16, 16, 16, 17, 17, 17,
      18, 18, 18, 18, 19]"

definition pow10 :: "int \<Rightarrow> nat" where
  "pow10 p = (if p < 0 \<or> p \<ge> int (length decimalFactorTable) then 0
              else decimalFactorTable ! nat p)"

text \<open>\<^verbatim>\<open>64 - bits.LeadingZeros64(value)\<close>: the length of \<open>value\<close> in bits.\<close>

fun binaryDigits :: "nat \<Rightarrow> nat" where
  "binaryDigits value = (if value = 0 then 0 else Suc (binaryDigits (value div 2)))"

definition decimalDigits :: "nat \<Rightarrow> int" where
  "decimalDigits value =
     (if value = 0 then 1
      else let digits = digitsHelper ! binaryDigits value
           in if value \<ge> decimalFactorTable ! digits then int digits + 1 else int digits)"

definition log10 :: "nat \<Rightarrow> int" where
  "log10 a = decimalDigits a - 1"

text \<open>\<^verbatim>\<open>abs\<close> of the source, on Go's 64-bit \<^verbatim>\<open>int\<close>: \<^verbatim>\<open>(val + mask) ^ mask\<close> with
  \<^verbatim>\<open>mask = val >> 63\<close>, that is \<open>- val\<close> (wrapped) for a negative \<open>val\<close>.\<close>

definition absInt :: "int \<Rightarrow> int" where
  "absInt val = (if val < 0 then i64 (- val) else val)"

function trimZeros :: "number \<Rightarrow> expType \<Rightarrow> expType \<Rightarrow> number \<times> expType" where
  "trimZeros m e eMax =
     (if e < eMax \<and> m mod 10 = 0 then trimZeros (m div 10) (e + 1) eMax else (m, e))"
  by pat_completeness auto
termination
  by (relation "measure (\<lambda>(m, e, eMax). nat (eMax - e))") auto

declare trimZeros.simps [simp del]

text \<open>The two loops of \<^verbatim>\<open>adjustMantExp\<close>.\<close>

function adjustLoop1 :: "number \<Rightarrow> expType \<Rightarrow> number \<times> expType" where
  "adjustLoop1 m e =
     (if (m > maxMantissa \<or> e < minExponent) \<and> m > 0 \<and> i32 (e + 1) < maxExponent
      then adjustLoop1 (m div 10) (i32 (e + 1)) else (m, e))"
  by pat_completeness auto
termination
  by (relation "measure (\<lambda>(m, e). m)") auto

declare adjustLoop1.simps [simp del]

function adjustLoop2 :: "number \<Rightarrow> expType \<Rightarrow> number \<times> expType" where
  "adjustLoop2 m e =
     (if e > maxExponent \<and> u64 (m * 10) < maxMantissa
      then adjustLoop2 (u64 (m * 10)) (e - 1) else (m, e))"
  by pat_completeness auto
termination
  by (relation "measure (\<lambda>(m, e). nat (e - maxExponent))") auto

declare adjustLoop2.simps [simp del]

definition adjustMantExp :: "number \<Rightarrow> expType \<Rightarrow> Value" where
  "adjustMantExp m0 e0 =
     (case adjustLoop1 m0 e0 of (m1, e1) \<Rightarrow>
       (case adjustLoop2 m1 e1 of (m, e) \<Rightarrow>
          if m = 0 \<or> e < minExponent then zero
          else if e > maxExponent then MaxValue
          else fromMantAndExp m e))"

definition Normalized :: "Value \<Rightarrow> Value" where
  "Normalized v =
     (case split v of (m, e) \<Rightarrow>
        if m = 0 then zero
        else (case trimZeros m e maxExponent of (m', e') \<Rightarrow> fromMantAndExp m' e'))"

text \<open>\<^verbatim>\<open>mul64\<close>: the 128-bit product \<open>hi * 2 ^ 64 + lo\<close>; \<^verbatim>\<open>bits.Div64(hi, lo, y)\<close>
  panics when \<open>y = 0\<close> or \<open>y \<le> hi\<close>, and otherwise returns the quotient of the
  128-bit number by \<open>y\<close>.\<close>

definition mul64 :: "nat \<Rightarrow> nat \<Rightarrow> error + (nat \<times> int)" where
  "mul64 a b =
     (let hi = (a * b) div 2 ^ 64; lo = (a * b) mod 2 ^ 64
      in if hi > 0 then
           let expShift = decimalDigits hi; toDiv = pow10 expShift
           in if toDiv = 0 \<or> toDiv \<le> hi then Inl Div64Overflow
              else Inr ((hi * 2 ^ 64 + lo) div toDiv, expShift)
         else Inr (lo, 0))"

definition Mul :: "Value \<Rightarrow> Value \<Rightarrow> error + Value" where
  "Mul v0 other0 =
     (let v = Normalized v0; other = Normalized other0 in
      case split v of (m1, e1) \<Rightarrow>
     (case split other of (m2, e2) \<Rightarrow>
        if m1 = 0 \<or> m2 = 0 then Inr zero
        else
         (case mul64 m1 m2 of
            Inl x \<Rightarrow> Inl x
          | Inr (res, eShift) \<Rightarrow> Inr (adjustMantExp res (i32 (e1 + e2 + eShift))))))"

section \<open>Addition and subtraction\<close>

text \<open>\<^verbatim>\<open>doToEqualExp\<close> divides \<^verbatim>\<open>maxMantissa\<close> by \<open>m1\<close>; its callers pass a nonzero
  \<open>m1\<close>, the function itself does not check.\<close>

definition doToEqualExp ::
  "number \<Rightarrow> expType \<Rightarrow> number \<Rightarrow> expType \<Rightarrow> error + (number \<times> number \<times> expType)" where
  "doToEqualExp m1 e1 m2 e2 =
     (if i32 (e1 - e2) = 0 then Inr (m1, m2, e1)
      else
        (case trimZeros m2 e2 e1 of (m2', e2') \<Rightarrow>
           if i32 (e1 - e2') = 0 then Inr (m1, m2', e1)
           else if m1 = 0 then Inl IntegerDivideByZero
           else
             let toMult0 = i32 (log10 (maxMantissa div m1));
                 toMult = (if toMult0 > i32 (e1 - e2') then i32 (e1 - e2') else toMult0);
                 m1' = u64 (m1 * pow10 toMult);
                 e1' = i32 (e1 - toMult);
                 ediff = i32 (e1' - e2')
             in if ediff = 0 then Inr (m1', m2', e1')
                else Inr (m1', (if pow10 ediff > 0 then m2' div pow10 ediff else 0), e1')))"

definition toEqualExp ::
  "number \<Rightarrow> expType \<Rightarrow> number \<Rightarrow> expType \<Rightarrow> error + (number \<times> number \<times> expType)" where
  "toEqualExp m1 e1 m2 e2 =
     (if e1 \<ge> e2 then doToEqualExp m1 e1 m2 e2
      else
        (case doToEqualExp m2 e2 m1 e1 of
           Inl x \<Rightarrow> Inl x
         | Inr (r1, r2, re) \<Rightarrow> Inr (r2, r1, re)))"

definition addWithExp :: "number \<Rightarrow> number \<Rightarrow> expType \<Rightarrow> Value" where
  "addWithExp m1 m2 e =
     (let res = u64 (m1 + m2)
      in if res > maxMantissa then
           (if e = maxExponent then MaxValue else fromMantAndExp (res div 10) (i32 (e + 1)))
         else fromMantAndExp res e)"

definition subWithExp :: "number \<Rightarrow> number \<Rightarrow> expType \<Rightarrow> Value \<times> bool" where
  "subWithExp m1 m2 e =
     (if m1 \<ge> m2 then (fromMantAndExp (m1 - m2) e, False)
      else (fromMantAndExp (m2 - m1) e, True))"

definition Add :: "Value \<Rightarrow> Value \<Rightarrow> error + Value" where
  "Add v other =
     (case split v of (m1, e1) \<Rightarrow>
     (case split other of (m2, e2) \<Rightarrow>
        if m1 = 0 then (if m2 = 0 then Inr zero else Inr other)
        else if m2 = 0 then Inr v
        else
          (case toEqualExp m1 e1 m2 e2 of
             Inl x \<Rightarrow> Inl x
           | Inr (r1, r2, re) \<Rightarrow> Inr (addWithExp r1 r2 re))))"

definition Sub :: "Value \<Rightarrow> Value \<Rightarrow> error + (Value \<times> bool)" where
  "Sub v other =
     (case split v of (m1, e1) \<Rightarrow>
     (case split other of (m2, e2) \<Rightarrow>
        if m2 = 0 then (if m1 = 0 then Inr (zero, False) else Inr (v, False))
        else if m1 = 0 then Inr (other, True)
        else
          (case toEqualExp m1 e1 m2 e2 of
             Inl x \<Rightarrow> Inl x
           | Inr (r1, r2, re) \<Rightarrow> Inr (subWithExp r1 r2 re))))"

section \<open>Rounding\<close>

datatype mode = modeFloor | modeRound | modeCeil

text \<open>The part of \<^verbatim>\<open>round\<close> after its first \<^verbatim>\<open>if\<close>/\<^verbatim>\<open>else\<close>: \<open>n\<close>, \<open>ei\<close> and \<open>dd\<close> are
  the local variables as the first part left them, \<open>e\<close> is the unchanged parameter.
  \<^verbatim>\<open>n % p\<close> and \<^verbatim>\<open>n /= p\<close> panic when \<^verbatim>\<open>pow10\<close> returned its sentinel 0.\<close>

definition roundCut ::
  "number \<Rightarrow> expType \<Rightarrow> int \<Rightarrow> int \<Rightarrow> int \<Rightarrow> int \<Rightarrow> mode \<Rightarrow> error + (number \<times> expType)" where
  "roundCut n e ei dd toCut0 prec md =
     (if toCut0 \<le> 0 then Inr (n, e)
      else
        let toCut = (if toCut0 > dd then dd else toCut0);
            p = pow10 toCut
        in if p = 0 then Inl IntegerDivideByZero
           else
             let r = n mod p;
                 n1 = n div p;
                 ei1 = i64 (ei + toCut)
             in (case md of
                   modeFloor \<Rightarrow> Inr (n1, i32 ei1)
                 | modeRound \<Rightarrow> Inr ((if r > p div 2 then u64 (n1 + 1) else n1), i32 ei1)
                 | modeCeil \<Rightarrow>
                     if r \<noteq> 0 then
                       (if n1 > 0 then Inr (u64 (n1 + 1), i32 ei1)
                        else if prec \<ge> 0 then Inr (1, i32 (i64 (- prec)))
                        else Inr (n1, i32 ei1))
                     else Inr (n1, i32 ei1)))"

definition round :: "number \<Rightarrow> expType \<Rightarrow> int \<Rightarrow> mode \<Rightarrow> error + (number \<times> expType)" where
  "round n e prec md =
     (let ei = e; dd = decimalDigits n
      in if prec \<ge> 0 then roundCut n e ei dd (i64 (- ei - prec)) prec md
         else if e < 0 then
           (if dd + ei \<le> 0 then
              (if n > 0 \<and> md = modeCeil \<and> prec \<ge> 0 then Inr (1, i32 (i64 (- prec)))
               else Inr (0, 0))
            else if pow10 (- ei) = 0 then Inl IntegerDivideByZero
            else roundCut (n div pow10 (- ei)) e 0 (dd + ei) (i64 (- prec)) prec md)
         else roundCut n e ei dd (i64 (- prec)) prec md)"

definition roundValue :: "mode \<Rightarrow> Value \<Rightarrow> int \<Rightarrow> error + Value" where
  "roundValue md v prec =
     (case split v of (m, e) \<Rightarrow>
       (case round m e prec md of
          Inl x \<Rightarrow> Inl x
        | Inr (n, e') \<Rightarrow> Inr (adjustMantExp n e')))"

definition Floor :: "Value \<Rightarrow> int \<Rightarrow> error + Value" where
  "Floor v prec = roundValue modeFloor v prec"

definition Round :: "Value \<Rightarrow> int \<Rightarrow> error + Value" where
  "Round v prec = roundValue modeRound v prec"

definition Ceil :: "Value \<Rightarrow> int \<Rightarrow> error + Value" where
  "Ceil v prec = roundValue modeCeil v prec"

section \<open>Division\<close>

definition divMod :: "Value \<Rightarrow> Value \<Rightarrow> error + (number \<times> number \<times> expType)" where
  "divMod v1 v2 =
     (case split v1 of (m1, e1) \<Rightarrow>
     (case split v2 of (m2, e2) \<Rightarrow>
        if m2 = 0 then Inl DivisionByZero
        else if m1 = 0 then Inr (0, 0, 0)
        else if m1 mod m2 = 0 then Inr (m1 div m2, 0, i32 (e1 - e2))
        else
          let toMult = log10 (maxNumber div m1);
              m1' = u64 (m1 * pow10 toMult);
              e = i32 (i32 (e1 - e2) - i32 toMult)
          in Inr (m1' div m2, m1' mod m2, e)))"

definition DivMod :: "Value \<Rightarrow> Value \<Rightarrow> int \<Rightarrow> error + (Value \<times> Value)" where
  "DivMod v0 other0 prec =
     (let v = Normalized v0; other = Normalized other0 in
      case divMod v other of
        Inl x \<Rightarrow> Inl x
      | Inr (q, r, e) \<Rightarrow>
          if r = 0 then Inr (Normalized (adjustMantExp q e), zero)
          else
            (case (if e < maxExponent then trimZeros q e maxExponent else (q, e)) of (q1, e1) \<Rightarrow>
            (case round q1 e1 prec modeFloor of
               Inl x \<Rightarrow> Inl x
             | Inr (q2, e2) \<Rightarrow>
                 (case Mul other (adjustMantExp q2 e2) of
                    Inl x \<Rightarrow> Inl x
                  | Inr pr \<Rightarrow>
                      (case Sub v pr of
                         Inl x \<Rightarrow> Inl x
                       | Inr (rem, neg) \<Rightarrow> Inr (adjustMantExp q2 e2, rem))))))"

text \<open>\<^verbatim>\<open>float64Div\<close> computes its result in binary floating point and converts it back
  with \<^verbatim>\<open>FromFloat64\<close>, whose error it drops.  Floating point is not modelled: the
  conversion is the parameter \<open>flt\<close>, a total function (Go's float arithmetic, and
  the float to integer conversions of \<^verbatim>\<open>FromFloat64\<close>, do not panic).\<close>

definition float64Div :: "(Value \<Rightarrow> Value \<Rightarrow> Value) \<Rightarrow> Value \<Rightarrow> Value \<Rightarrow> error + Value" where
  "float64Div flt a b = (if mant b = 0 then Inl DivisionByZero else Inr (flt a b))"

definition Div :: "(Value \<Rightarrow> Value \<Rightarrow> Value) \<Rightarrow> Value \<Rightarrow> Value \<Rightarrow> error + Value" where
  "Div flt v0 other0 =
     (let v = Normalized v0; other = Normalized other0 in
      case divMod v other of
        Inl x \<Rightarrow> Inl x
      | Inr (quo, rem, e) \<Rightarrow>
          if rem = 0 then Inr (Normalized (adjustMantExp quo (i32 e)))
          else float64Div flt v other)"

section \<open>Comparison and conversion to integers\<close>

definition uint64Cmp :: "nat \<Rightarrow> nat \<Rightarrow> int" where
  "uint64Cmp a b = (if a > b then 1 else if a < b then - 1 else 0)"

definition Cmp :: "Value \<Rightarrow> Value \<Rightarrow> int" where
  "Cmp v other =
     (case split v of (m1, e1) \<Rightarrow>
     (case split other of (m2, e2) \<Rightarrow>
        let ediff = i32 (e1 - e2) in
        if ediff = 0 \<or> m1 = 0 \<or> m2 = 0 then uint64Cmp m1 m2
        else
          let maxDigit1 = e1 + decimalDigits m1;
              maxDigit2 = e2 + decimalDigits m2
          in if maxDigit1 > maxDigit2 then 1
             else if maxDigit1 < maxDigit2 then - 1
             else if ediff > 0 then uint64Cmp (u64 (m1 * pow10 ediff)) m2
             else uint64Cmp m1 (u64 (m2 * pow10 (- ediff)))))"

text \<open>The loop of \<^verbatim>\<open>trailingZeros\<close>; it is entered with a nonzero \<open>value\<close> only.\<close>

function trailingZerosLoop :: "nat \<Rightarrow> int \<Rightarrow> int" where
  "trailingZerosLoop value i =
     (if value \<noteq> 0 \<and> value mod 10 = 0 then trailingZerosLoop (value div 10) (i + 1) else i)"
  by pat_completeness auto
termination
  by (relation "measure (\<lambda>(value, i). value)") auto

declare trailingZerosLoop.simps [simp del]

definition trailingZeros :: "nat \<Rightarrow> int" where
  "trailingZeros value = (if value = 0 then 1 else trailingZerosLoop value 0)"

definition toUint64 :: "Value \<Rightarrow> nat \<times> bool" where
  "toUint64 v0 =
     (let v = Normalized v0; e = exp v; m = mant v
      in if m = 0 then (0, True)
         else if e = 0 then (m, True)
         else
           let p = pow10 (absInt e)
           in if p = 0 then (maxMantissa, False)
              else if e < 0 then (m div p, trailingZeros m \<ge> - e)
              else
                let intPart = maxMantissa div m;
                    frac = maxMantissa mod m;
                    e2 = decimalDigits intPart - 1
                in if e2 > e \<or> (e2 = e \<and> maxMantissa - frac \<le> u64 (intPart * m))
                   then (u64 (m * p), True)
                   else (maxMantissa, False))"

definition Uint64 :: "Value \<Rightarrow> nat" where
  "Uint64 v = fst (toUint64 v)"

section \<open>Formatting\<close>

text \<open>Strings are byte lists.  \<^verbatim>\<open>strconv.FormatUint(m, 10)\<close> and \<^verbatim>\<open>strconv.Itoa\<close>
  write the decimal digits, most significant first, with a leading minus sign for a
  negative number.\<close>

definition digitChar :: "nat \<Rightarrow> char" where
  "digitChar d = ''0123456789'' ! d"

fun FormatUint :: "nat \<Rightarrow> string" where
  "FormatUint n = (if n < 10 then [digitChar n] else FormatUint (n div 10) @ [digitChar (n mod 10)])"

declare FormatUint.simps [simp del]

definition Itoa :: "int \<Rightarrow> string" where
  "Itoa i = (if i < 0 then CHR ''-'' # FormatUint (nat (- i)) else FormatUint (nat i))"

definition delim :: char where
  "delim = CHR ''.''"

definition manyZeros :: string where
  "manyZeros = replicate 60 CHR ''0'' @ replicate 60 CHR ''0'' @ replicate 25 CHR ''0''"

definition zeroStr :: "int \<Rightarrow> string" where
  "zeroStr l =
     (if l < 0 then []
      else if l \<ge> int (length manyZeros) then take (length manyZeros - 1) manyZeros
      else take (nat l) manyZeros)"

text \<open>\<^verbatim>\<open>WriteToStringsBuilder\<close> and \<^verbatim>\<open>String\<close>: the bytes written to the builder.\<close>

definition String :: "Value \<Rightarrow> string" where
  "String v0 =
     (let v = Normalized v0 in
      case split v of (m, e) \<Rightarrow>
        if m = 0 then ''0''
        else
          let s = FormatUint m
          in if e = 0 then s
             else if e > 0 then
               (let zeros = zeroStr e;
                    moreZeros = e - int (length zeros)
                in s @ zeros @ (if moreZeros > 0 then ''e'' @ Itoa moreZeros else []))
             else
               (let diff = int (length s) + e
                in if diff \<le> 0 then
                     (let zeros = zeroStr (- diff);
                          moreZeros = - diff - int (length zeros)
                      in ''0'' @ [delim] @ zeros @ s @
                         (if moreZeros > 0 then ''e-'' @ Itoa moreZeros else []))
                   else take (nat diff) s @ [delim] @ drop (nat diff) s))"

section \<open>JSON\<close>

datatype jsonMode = JSONModeString | JSONModeFloat | JSONModeME | JSONModeCompact

definition jsonParts :: "string list" where
  \<open>jsonParts = [''{"m":'', '',"e":'', ''}'']\<close>

definition jsonLen :: int where
  "jsonLen = int (length (jsonParts ! 0)) + int (length (jsonParts ! 1)) + int (length (jsonParts ! 2))"

definition toMEJSON :: "Value \<Rightarrow> string" where
  "toMEJSON v0 =
     (let v = Normalized v0 in
      case split v of (m, e) \<Rightarrow>
        jsonParts ! 0 @ FormatUint m @ jsonParts ! 1 @ Itoa e @ jsonParts ! 2)"

definition int64DecimalLen :: "int \<Rightarrow> int" where
  "int64DecimalLen value =
     (if value < 0 then 1 + decimalDigits (nat (i64 (- value) mod 2 ^ 64))
      else decimalDigits (nat value))"

definition jsonMELen :: "Value \<Rightarrow> int" where
  "jsonMELen v = jsonLen + decimalDigits (mant v) + int64DecimalLen (exp v)"

definition calcStrLen :: "Value \<Rightarrow> int" where
  "calcStrLen v0 =
     (let v = Normalized v0;
          mantLen = decimalDigits (mant v);
          sLen = 2 + mantLen;
          e = exp v
      in if e > 0 then sLen + e
         else
           (let diff = e + mantLen
            in if diff < 0 then sLen + 1 + (- diff) else sLen + 1))"

text \<open>\<^verbatim>\<open>toJSON\<close>.  The float mode prints \<^verbatim>\<open>v.Float64()\<close> with
  \<^verbatim>\<open>strconv.FormatFloat\<close>; floating point is not modelled, the printer is the
  parameter \<open>fmtFloat\<close>.  The two recursive calls of the compact mode are written
  out: \<open>quotedString\<close> is the \<^verbatim>\<open>default\<close> branch, \<open>toMEJSON\<close> the
  \<^verbatim>\<open>JSONModeME\<close> branch.\<close>

definition quotedString :: "Value \<Rightarrow> string" where
  "quotedString v = [CHR 0x22] @ String v @ [CHR 0x22]"

definition toJSON :: "(Value \<Rightarrow> string) \<Rightarrow> Value \<Rightarrow> jsonMode \<Rightarrow> string" where
  "toJSON fmtFloat v md =
     (case md of
        JSONModeFloat \<Rightarrow> fmtFloat v
      | JSONModeME \<Rightarrow> toMEJSON v
      | JSONModeCompact \<Rightarrow>
          if calcStrLen v \<le> jsonMELen v then quotedString v else toMEJSON v
      | JSONModeString \<Rightarrow> quotedString v)"

section \<open>Parsing\<close>

text \<open>\<^verbatim>\<open>strconv.ParseUint(s, 10, 64)\<close> and \<^verbatim>\<open>strconv.ParseInt(s, 10, 64)\<close>: \<open>None\<close> is
  the error result (empty input, a byte that is not a digit, a value out of range).\<close>

definition isDigit :: "char \<Rightarrow> bool" where
  "isDigit r = (48 \<le> (of_char r :: nat) \<and> (of_char r :: nat) \<le> 57)"

definition digitsValue :: "string \<Rightarrow> nat" where
  "digitsValue s = foldl (\<lambda>a c. a * 10 + ((of_char c :: nat) - 48)) 0 s"

definition ParseUint :: "string \<Rightarrow> nat option" where
  "ParseUint s =
     (if s = [] \<or> \<not> list_all isDigit s then None
      else if digitsValue s > 2 ^ 64 - 1 then None
      else Some (digitsValue s))"

definition ParseInt :: "string \<Rightarrow> int option" where
  "ParseInt s0 =
     (if s0 = [] then None
      else
        let neg = (hd s0 = CHR ''-'');
            s = (if hd s0 = CHR ''+'' \<or> hd s0 = CHR ''-'' then tl s0 else s0)
        in (case ParseUint s of
              None \<Rightarrow> None
            | Some un \<Rightarrow>
                if \<not> neg \<and> un \<ge> 2 ^ 63 then None
                else if neg \<and> un > 2 ^ 63 then None
                else Some (if neg then - int un else int un)))"

text \<open>The byte sequences that \<^verbatim>\<open>unicode.IsSpace\<close> accepts, in UTF-8: the ASCII
  white space, U+0085, U+00A0, U+1680, U+2000 to U+200A, U+2028, U+2029, U+202F,
  U+205F and U+3000.\<close>

definition spaceRunes :: "string list" where
  "spaceRunes =
     [[CHR 0x09], [CHR 0x0A], [CHR 0x0B], [CHR 0x0C], [CHR 0x0D], [CHR 0x20],
      [CHR 0xC2, CHR 0x85], [CHR 0xC2, CHR 0xA0], [CHR 0xE1, CHR 0x9A, CHR 0x80],
      [CHR 0xE2, CHR 0x80, CHR 0x80], [CHR 0xE2, CHR 0x80, CHR 0x81],
      [CHR 0xE2, CHR 0x80, CHR 0x82], [CHR 0xE2, CHR 0x80, CHR 0x83],
      [CHR 0xE2, CHR 0x80, CHR 0x84], [CHR 0xE2, CHR 0x80, CHR 0x85],
      [CHR 0xE2, CHR 0x80, CHR 0x86], [CHR 0xE2, CHR 0x80, CHR 0x87],
      [CHR 0xE2, CHR 0x80, CHR 0x88], [CHR 0xE2, CHR 0x80, CHR 0x89],
      [CHR 0xE2, CHR 0x80, CHR 0x8A], [CHR 0xE2, CHR 0x80, CHR 0xA8],
      [CHR 0xE2, CHR 0x80, CHR 0xA9], [CHR 0xE2, CHR 0x80, CHR 0xAF],
      [CHR 0xE2, CHR 0x81, CHR 0x9F], [CHR 0xE3, CHR 0x80, CHR 0x80]]"

text \<open>The width of the white-space rune a string starts with (0 when there is none),
  and \<^verbatim>\<open>strings.TrimLeftFunc(s, unicode.IsSpace)\<close>.  \<^verbatim>\<open>TrimRightFunc\<close> is the
  same on the reversed string.\<close>

definition leadingRune :: "string list \<Rightarrow> string \<Rightarrow> nat" where
  "leadingRune runes s =
     (case filter (\<lambda>r. take (length r) s = r) runes of [] \<Rightarrow> 0 | r # rs \<Rightarrow> length r)"

function trimRunes :: "string list \<Rightarrow> string \<Rightarrow> string" where
  "trimRunes runes s =
     (if s = [] \<or> leadingRune runes s = 0 then s
      else trimRunes runes (drop (leadingRune runes s) s))"
  by pat_completeness auto
termination
  by (relation "measure (\<lambda>(runes, s). length s)") auto

declare trimRunes.simps [simp del]

definition trimLeftSpace :: "string \<Rightarrow> string" where
  "trimLeftSpace s = trimRunes spaceRunes s"

definition trimRightSpace :: "string \<Rightarrow> string" where
  "trimRightSpace s = rev (trimRunes (map rev spaceRunes) (rev s))"

definition prepareString :: "string \<Rightarrow> string \<times> int \<times> bool" where
  "prepareString s0 =
     (if s0 = [] then ([], 0, False)
      else
        let s1 = (if hd s0 = CHR 0x22 then tl s0 else s0);
            offset1 = (if hd s0 = CHR 0x22 then 1 else 0)
        in if s1 = [] then ([], 0, False)
           else
             let s2 = (if last s1 = CHR 0x22 then butlast s1 else s1);
                 trimmed = trimLeftSpace s2;
                 offset2 = (if length trimmed \<noteq> length s2
                            then offset1 + (int (length s2) - int (length trimmed))
                            else offset1);
                 s3 = trimRightSpace trimmed
             in if s3 = [] then ([], 0, False)
                else if hd s3 = CHR ''-'' then (tl s3, offset2 + 1, True)
                else if hd s3 = CHR ''+'' then (tl s3, offset2 + 1, False)
                else (s3, offset2, False))"

text \<open>The scan of \<^verbatim>\<open>removeLeadingZeros\<close>: \<open>rs\<close> are the bytes not yet read, \<open>i\<close> the
  index of the next one, \<open>b\<close> the contents of the builder.  The result is the builder,
  \<^verbatim>\<open>delimPos\<close>, \<^verbatim>\<open>firstNonZeroPos\<close> and the exponent.  Every byte outside ASCII takes
  the \<^verbatim>\<open>default\<close> branch, at the index of the first byte of its rune.\<close>

fun scanDigits ::
  "string \<Rightarrow> int \<Rightarrow> string \<Rightarrow> int \<Rightarrow> int \<Rightarrow> posError + (string \<times> int \<times> int \<times> expType)" where
  "scanDigits [] i b delimPos firstNonZeroPos = Inr (b, delimPos, firstNonZeroPos, 0)"
| "scanDigits (r # rs) i b delimPos firstNonZeroPos =
     (if isDigit r then
        (if b = [] then
           (if r = CHR ''0'' then scanDigits rs (i + 1) b delimPos firstNonZeroPos
            else scanDigits rs (i + 1) (b @ [r]) delimPos i)
         else scanDigits rs (i + 1) (b @ [r]) delimPos firstNonZeroPos)
      else if r = CHR ''e'' then
        (case ParseInt rs of
           None \<Rightarrow> Inl \<lparr>pos = i + 1, err = ErrorParsingExponent\<rparr>
         | Some parsed \<Rightarrow> Inr (b, delimPos, firstNonZeroPos, i32 parsed))
      else if r = delim then
        (if delimPos \<noteq> - 1 then Inl \<lparr>pos = i, err = UnexpectedDelimeter\<rparr>
         else scanDigits rs (i + 1) b i firstNonZeroPos)
      else Inl \<lparr>pos = i, err = UnexpectedSymbol r\<rparr>)"

definition removeLeadingZeros :: "string \<Rightarrow> posError + (string \<times> int \<times> expType)" where
  "removeLeadingZeros s =
     (case scanDigits s 0 [] (- 1) (- 1) of
        Inl pe \<Rightarrow> Inl pe
      | Inr (b, delimPos, firstNonZeroPos, e) \<Rightarrow>
          if firstNonZeroPos = - 1 then Inr ([], 0, 0)
          else if delimPos \<ge> 0 then
            Inr (b, delimPos - (if delimPos < firstNonZeroPos then firstNonZeroPos - 1
                                else firstNonZeroPos), e)
          else Inr (b, int (length b), e))"

fun stripTrailingZeros :: "string \<Rightarrow> string" where
  "stripTrailingZeros s =
     (if s = [] \<or> last s \<noteq> CHR ''0'' then s else stripTrailingZeros (butlast s))"

declare stripTrailingZeros.simps [simp del]

definition removeTrailingZerosString :: "string \<Rightarrow> int \<Rightarrow> string \<times> expType" where
  "removeTrailingZerosString s delimPos =
     (stripTrailingZeros s, i32 (delimPos - int (length (stripTrailingZeros s))))"

definition parseValue :: "string \<Rightarrow> posError + (string \<times> expType)" where
  "parseValue s =
     (case removeLeadingZeros s of
        Inl pe \<Rightarrow> Inl pe
      | Inr (result, delimPos, e) \<Rightarrow>
          (case removeTrailingZerosString result delimPos of
             (result', eFromDelim) \<Rightarrow> Inr (result', i32 (e + eFromDelim))))"

definition digitsInMaxMantissa :: int where
  "digitsInMaxMantissa = decimalDigits maxMantissa"

definition fromStringAndExp :: "string \<Rightarrow> expType \<Rightarrow> error + Value" where
  "fromStringAndExp s e =
     (if s = [] then Inr zero
      else
        let toCut = int (length s) - digitsInMaxMantissa;
            expInc0 = i32 toCut;
            expInc = (if e < 0 then i32 (expInc0 - i32 (- e)) else expInc0);
            e' = (if toCut > 0 \<and> expInc > 0 then i32 (e + expInc) else e);
            s' = (if toCut > 0 then take (nat digitsInMaxMantissa) s else s)
        in (case ParseUint s' of
              None \<Rightarrow> Inl ParseUintPanic
            | Some u \<Rightarrow> Inr (adjustMantExp u e')))"

definition addPosError :: "posError \<Rightarrow> int \<Rightarrow> posError" where
  "addPosError pe offset = pe\<lparr>pos := pos pe + offset\<rparr>"

text \<open>\<^verbatim>\<open>FromString\<close>.  When the scan fails the source retries with
  \<^verbatim>\<open>strconv.ParseFloat\<close> and \<^verbatim>\<open>FromFloat64\<close>; floating point is not modelled, the
  retry is the parameter \<open>viaFloat\<close>: \<open>None\<close> when \<^verbatim>\<open>ParseFloat\<close> rejects the
  string, otherwise the result of \<^verbatim>\<open>FromFloat64\<close>.\<close>

definition FromString :: "(string \<Rightarrow> (error + Value) option) \<Rightarrow> string \<Rightarrow> error + Value" where
  "FromString viaFloat s0 =
     (case prepareString s0 of (s, offset, neg) \<Rightarrow>
        if s = [] then Inl EmptyInput
        else if neg then Inl NegativeValue
        else
          (case parseValue s of
             Inl pe \<Rightarrow>
               (case viaFloat s of
                  Some res \<Rightarrow> res
                | None \<Rightarrow> Inl (ParsingFailed (addPosError pe (offset + 1))))
           | Inr (parsed, e) \<Rightarrow> fromStringAndExp parsed e))"

definition FromUint64 :: "nat \<Rightarrow> Value" where
  "FromUint64 v = adjustMantExp v 0"

definition FromMantAndExp :: "nat \<Rightarrow> expType \<Rightarrow> Value" where
  "FromMantAndExp m e = adjustMantExp m e"

section \<open>Notions used in the statements\<close>

text \<open>The numeric value of \<open>v\<close> is \<open>mant v * 10 ^ exp v\<close>.  The stored exponent is
  never below \<^verbatim>\<open>minExponent\<close>, so \<open>scaledValue v\<close>, the value in units of
  \<open>10 ^ minExponent\<close>, is a natural number; \<open>valueGreater v n\<close> says that the
  numeric value of \<open>v\<close> exceeds the natural number \<open>n\<close>.\<close>

definition scaledValue :: "Value \<Rightarrow> nat" where
  "scaledValue v = mant v * 10 ^ nat (exp v - minExponent)"

definition valueGreater :: "Value \<Rightarrow> nat \<Rightarrow> bool" where
  "valueGreater v n = (scaledValue v > n * 10 ^ nat (- minExponent))"

text \<open>\<open>unitAt p\<close> is the unit \<open>10 ^ (- p)\<close> of the precision \<open>p\<close>, in the units of
  \<open>scaledValue\<close> (it is 1, the smallest unit there is, for \<open>p\<close> above 127), and
  \<open>isCeilAt p v r\<close> says that \<open>r\<close> is the least multiple of that unit that is not
  below \<open>v\<close>: a multiple of the unit, at least \<open>v\<close>, and less than one unit above
  \<open>v\<close>.\<close>

definition unitAt :: "int \<Rightarrow> nat" where
  "unitAt prec = 10 ^ nat (- prec - minExponent)"

definition isCeilAt :: "int \<Rightarrow> Value \<Rightarrow> Value \<Rightarrow> bool" where
  "isCeilAt prec v r =
     (unitAt prec dvd scaledValue r \<and> scaledValue v \<le> scaledValue r \<and>
      scaledValue r < scaledValue v + unitAt prec)"

text \<open>A float retry that rejects its input (\<^verbatim>\<open>strconv.ParseFloat\<close> fails), and the
  test whether a result of \<^verbatim>\<open>FromString\<close> is a parse error with a position.\<close>

definition rejectFloat :: "string \<Rightarrow> (error + Value) option" where
  "rejectFloat s = None"

fun isParsingFailed :: "error + Value \<Rightarrow> bool" where
  "isParsingFailed (Inl (ParsingFailed pe)) = True"
| "isParsingFailed r = False"

section \<open>Facts about the packed representation\<close>

lemma consts_simps:
  "mantBits = 56" "bias = -127" "maxExponent = 128" "minExponent = -127"
  "expMask = 255" "mantMask = 72057594037927935" "maxMantissa = 72057594037927935" "maxNumber = 18446744073709551615"
  by (simp_all add: mantBits_def bias_def maxExponent_def minExponent_def expMask_def mantMask_def
      maxMantissa_def maxNumber_def bitsInNumber_def expBits_def signBit_def)

lemma mantMask_word: "(word_of_nat mantMask :: 64 word) = mask 56"
  by (simp add: consts_simps mask_eq_exp_minus_1)

lemma expMask_word: "(word_of_nat expMask :: 64 word) = mask 8"
  by (simp add: consts_simps mask_eq_exp_minus_1)

lemma mant_eq: "mant v = unat v mod 2 ^ 56"
  unfolding mant_def mantMask_word take_bit_eq_mask [symmetric]
  by (simp only: unsigned_take_bit_eq) (simp only: take_bit_eq_mod)

lemma i32_id: "- 2147483648 \<le> x \<Longrightarrow> x < 2147483648 \<Longrightarrow> i32 x = x"
  by (simp add: i32_def)

lemma unat_lt64: "unat (v :: 64 word) < 2 ^ 64"
  using unsigned_less [of v, where ?'a = nat] by simp

lemma exp_eq: "exp v = int (unat v div 2 ^ 56) - 127"
proof -
  have c: "unat v div 2 ^ 56 < 2 ^ 8"
    using unat_lt64 [of v] by (simp add: less_mult_imp_div_less)
  have b: "unat (drop_bit 56 v) = unat v div 2 ^ 56"
    by (simp only: unat_drop_bit_eq) (simp only: drop_bit_eq_div)
  have "unat (take_bit 8 (drop_bit 56 v)) = (unat v div 2 ^ 56) mod 2 ^ 8"
    by (simp only: unsigned_take_bit_eq b) (simp only: take_bit_eq_mod)
  also have "\<dots> = unat v div 2 ^ 56" using c by simp
  finally have a: "uint (drop_bit 56 v AND mask 8) = int (unat v div 2 ^ 56)"
    by (simp only: uint_nat take_bit_eq_mask)
  have "exp v = i32 (i32 (int (unat v div 2 ^ 56)) + bias)"
    unfolding exp_def expMask_word mantBits_def bitsInNumber_def expBits_def signBit_def
    by (simp only: a [symmetric]) simp
  then show ?thesis
    unfolding consts_simps using c by (simp add: i32_id)
qed

lemma i32_mod256: "i32 x mod 256 = x mod 256"
proof -
  have "i32 x = x - 256 * (16777216 * ((x + 2 ^ 31) div 2 ^ 32))"
    unfolding i32_def minus_mult_div_eq_mod [symmetric] by simp
  then show ?thesis
    by (simp only: mod_diff_right_eq [symmetric, of x "256 * _" 256] mod_mult_self1_is_0) simp
qed

lemma from_eq: "unat (fromMantAndExp m e) = nat ((e + 127) mod 256) * 2 ^ 56 + m mod 2 ^ 56"
proof -
  let ?x = "word_of_int (i32 (e + 127)) :: 64 word"
  have d: "fromMantAndExp m e = push_bit 56 ?x + take_bit 56 (word_of_nat m)"
    unfolding fromMantAndExp_def mantMask_word take_bit_eq_mask [symmetric]
    unfolding consts_simps
    apply (simp only: diff_minus_eq_add)
    apply (rule disjunctive_add [symmetric])
    apply (simp only: bit_simps)
    apply simp
    done
  have e1: "unat (take_bit 56 (word_of_nat m :: 64 word)) = m mod 2 ^ 56"
    apply (simp only: unsigned_take_bit_eq unat_of_nat)
    apply (simp only: take_bit_eq_mod)
    apply (simp add: mod_mod_cancel)
    done
  have e3: "int (unat ?x) = i32 (e + 127) mod 2 ^ 64"
    by (simp only: uint_nat [symmetric] uint_word_of_int) simp
  have "int (unat ?x mod 2 ^ 8) = (i32 (e + 127) mod 2 ^ 64) mod 2 ^ 8"
    by (simp only: e3 [symmetric] zmod_int) simp
  also have "\<dots> = i32 (e + 127) mod 256"
    by (simp add: mod_mod_cancel)
  finally have e4: "unat ?x mod 2 ^ 8 = nat ((e + 127) mod 256)"
    by (simp only: i32_mod256)
  have "unat (push_bit 56 ?x) = (unat ?x * 2 ^ 56) mod (2 ^ 8 * 2 ^ 56)"
    by (simp only: unsigned_push_bit_eq) (simp add: take_bit_eq_mod push_bit_eq_mult)
  also have "\<dots> = (unat ?x mod 2 ^ 8) * 2 ^ 56"
    by (simp only: mult_mod_left)
  finally have e2: "unat (push_bit 56 ?x) = nat ((e + 127) mod 256) * 2 ^ 56"
    by (simp only: e4)
  have lt: "nat ((e + 127) mod 256) * 2 ^ 56 + m mod 2 ^ 56 < 2 ^ 64"
  proof -
    have "nat ((e + 127) mod 256) \<le> 255" by simp
    then have "nat ((e + 127) mod 256) * 2 ^ 56 \<le> 255 * 2 ^ 56" by (rule mult_le_mono1)
    moreover have "m mod 2 ^ 56 < 2 ^ 56" by simp
    ultimately show ?thesis by simp
  qed
  show ?thesis
    unfolding d by (simp only: unat_word_ariths e1 e2) (use lt in simp)
qed


lemma mant_from: "mant (fromMantAndExp m e) = m mod 2 ^ 56"
  by (simp only: mant_eq from_eq) simp

lemma exp_from: "exp (fromMantAndExp m e) = (e + 127) mod 256 - 127"
  by (simp only: exp_eq from_eq) simp

lemma exp_from_id: "- 127 \<le> e \<Longrightarrow> e \<le> 128 \<Longrightarrow> exp (fromMantAndExp m e) = e"
  by (simp add: exp_from)

lemma mant_from_id: "m < 2 ^ 56 \<Longrightarrow> mant (fromMantAndExp m e) = m"
  by (simp add: mant_from)

lemma mant_lt: "mant v < 2 ^ 56"
  by (simp add: mant_eq)

lemma mant_le: "mant v \<le> maxMantissa"
  using mant_lt [of v] by (simp add: consts_simps)

lemma exp_range: "- 127 \<le> exp v \<and> exp v \<le> 128"
  using unat_lt64 [of v] by (simp add: exp_eq less_mult_imp_div_less)

lemma from_split: "fromMantAndExp (mant v) (exp v) = v"
proof -
  have "unat v div 2 ^ 56 < 256"
    using unat_lt64 [of v] by (simp add: less_mult_imp_div_less)
  then have "unat (fromMantAndExp (mant v) (exp v)) = unat v"
    by (simp add: from_eq mant_eq exp_eq)
  then show ?thesis by (simp only: word_unat_eq_iff)
qed

lemma zero_split: "mant zero = 0" "exp zero = - 127"
  by (simp_all add: mant_eq exp_eq zero_def)

lemma mant_zero_iff: "v = zero \<longleftrightarrow> mant v = 0 \<and> exp v = - 127"
  by (metis from_split zero_split)

lemma from_eq_iff:
  "fromMantAndExp m e = fromMantAndExp m' e' \<longleftrightarrow>
     m mod 2 ^ 56 = m' mod 2 ^ 56 \<and> (e + 127) mod 256 = (e' + 127) mod 256"
proof
  assume h: "fromMantAndExp m e = fromMantAndExp m' e'"
  have "mant (fromMantAndExp m e) = mant (fromMantAndExp m' e')"
    and "exp (fromMantAndExp m e) = exp (fromMantAndExp m' e')"
    by (simp_all only: h)
  then show "m mod 2 ^ 56 = m' mod 2 ^ 56 \<and> (e + 127) mod 256 = (e' + 127) mod 256"
    by (simp add: mant_from exp_from)
next
  assume "m mod 2 ^ 56 = m' mod 2 ^ 56 \<and> (e + 127) mod 256 = (e' + 127) mod 256"
  then have "unat (fromMantAndExp m e) = unat (fromMantAndExp m' e')"
    by (simp only: from_eq)
  then show "fromMantAndExp m e = fromMantAndExp m' e'"
    by (simp only: word_unat_eq_iff)
qed

lemma from_zero: "fromMantAndExp 0 (- 127) = zero"
  by (simp add: mant_zero_iff mant_from exp_from)

lemmas zero_from = from_zero [symmetric]

declare binaryDigits.simps [simp del]

lemmas eval_simps = consts_simps split_def mant_from exp_from trimZeros.simps adjustLoop1.simps
  adjustLoop2.simps adjustMantExp_def Normalized_def u64_def i32_def i64_def MaxValue_def
  mul64_def Mul_def decimalDigits_def binaryDigits.simps digitsHelper_def decimalFactorTable_def
  pow10_def log10_def Let_def zero_split



lemma replicate_numeral_eval [simp]: "replicate (numeral k) x = x # replicate (pred_numeral k) x"
  by (simp add: numeral_eq_Suc)

lemmas str_simps = String_def FormatUint.simps digitChar_def zeroStr_def manyZeros_def Itoa_def delim_def
  toJSON_def quotedString_def toMEJSON_def jsonParts_def jsonLen_def calcStrLen_def jsonMELen_def int64DecimalLen_def

lemmas parse_simps = FromString_def prepareString_def trimLeftSpace_def trimRightSpace_def leadingRune_def trimRunes.simps
  spaceRunes_def parseValue_def removeLeadingZeros_def removeTrailingZerosString_def stripTrailingZeros.simps
  fromStringAndExp_def digitsInMaxMantissa_def ParseUint_def ParseInt_def isDigit_def digitsValue_def addPosError_def

section \<open>Saturation of multiplication\<close>

text \<open>
  C1.  The claim: \<^verbatim>\<open>Max.Mul(v)\<close> is \<^verbatim>\<open>Max\<close> for every \<open>v\<close> that is at least 1.
  At \<open>v = 2\<close> the product \<open>2 * maxMantissa\<close> exceeds \<^verbatim>\<open>maxMantissa\<close> while the
  exponent is already \<^verbatim>\<open>maxExponent\<close>: the first loop of \<^verbatim>\<open>adjustMantExp\<close> does
  not run (\<open>e + 1 < maxExponent\<close> is false), no branch saturates, and
  \<^verbatim>\<open>fromMantAndExp\<close> masks the mantissa to \<open>maxMantissa - 1\<close>.  The result is
  not \<^verbatim>\<open>Max\<close>.
\<close>

theorem C1_Max_Mul_two_not_Max:
  "Mul MaxValue (FromUint64 2) = Inr (fromMantAndExp (maxMantissa - 1) maxExponent)
   \<and> Mul MaxValue (FromUint64 2) \<noteq> Inr MaxValue"
  by (simp add: eval_simps FromUint64_def from_eq_iff)

section \<open>Range of the exponent\<close>

text \<open>
  C2, as stated: the stored exponent lies in \<open>[-127, 127]\<close>, and the exponent of
  \<^verbatim>\<open>Max\<close> is at most 127.  The exponent of \<^verbatim>\<open>Max\<close> is 128.
\<close>

theorem C2_counterexample: "\<not> exp MaxValue \<le> 127"
  by (simp add: eval_simps)

text \<open>
  C2, amended: \<^verbatim>\<open>minExponent\<close> is \<open>-127\<close> and \<^verbatim>\<open>maxExponent\<close> is
  \<open>2 ^ (8 - 1) = 128\<close>; the exponent of every value lies in
  \<open>[minExponent, maxExponent]\<close>, every exponent of that range is stored unchanged,
  and the exponent of \<^verbatim>\<open>Max\<close> is \<open>128\<close>.
\<close>

theorem C2_exponent_range:
  "minExponent = - 127 \<and> maxExponent = 2 ^ (8 - 1) \<and>
   minExponent \<le> exp v \<and> exp v \<le> maxExponent \<and>
   exp (fromMantAndExp m (max minExponent (min maxExponent e))) = max minExponent (min maxExponent e) \<and>
   exp MaxValue = maxExponent"
  using exp_range [of v] by (simp add: consts_simps exp_from_id MaxValue_def)

section \<open>Facts about the arithmetic kernel\<close>

lemma table_check:
  "list_all (\<lambda>(k, h). 2 ^ k \<le> (10::nat) ^ (h + 1) \<and> (10::nat) ^ h \<le> 2 * 2 ^ k \<and> h \<le> 19)
     (zip [0..<65] digitsHelper)"
  unfolding digitsHelper_def by (simp add: upt_conv_Cons)

lemma table_nth:
  assumes "k \<le> 64"
  shows "2 ^ k \<le> (10::nat) ^ (digitsHelper ! k + 1) \<and> (10::nat) ^ (digitsHelper ! k) \<le> 2 * 2 ^ k
     \<and> digitsHelper ! k \<le> 19"
proof -
  have len: "length digitsHelper = 65" by (simp add: digitsHelper_def)
  have lt: "k < length (zip [0..<65] digitsHelper)" using assms len by simp
  have nth: "zip [0..<65] digitsHelper ! k = (k, digitsHelper ! k)" using assms len by simp
  from table_check [unfolded list_all_length, rule_format, OF lt]
  show ?thesis by (simp only: nth case_prod_conv)
qed

lemma factor_check: "list_all (\<lambda>(k, p). p = (10::nat) ^ k) (zip [0..<20] decimalFactorTable)"
  unfolding decimalFactorTable_def by (simp add: upt_conv_Cons)

lemma factor_nth:
  assumes "h \<le> 19"
  shows "decimalFactorTable ! h = 10 ^ h"
proof -
  have len: "length decimalFactorTable = 20" by (simp add: decimalFactorTable_def)
  have lt: "h < length (zip [0..<20] decimalFactorTable)" using assms len by simp
  have nth: "zip [0..<20] decimalFactorTable ! h = (h, decimalFactorTable ! h)" using assms len by simp
  from factor_check [unfolded list_all_length, rule_format, OF lt]
  show ?thesis by (simp only: nth case_prod_conv)
qed

lemma factor_len: "length decimalFactorTable = 20"
  by (simp add: decimalFactorTable_def)

lemma pow10_eq: "0 \<le> p \<Longrightarrow> p \<le> 19 \<Longrightarrow> pow10 p = 10 ^ nat p"
  by (simp add: pow10_def factor_nth factor_len)

lemma pow10_zero_iff: "pow10 p = 0 \<longleftrightarrow> p < 0 \<or> 20 \<le> p"
proof (cases "0 \<le> p \<and> p \<le> 19")
  case True
  then show ?thesis by (simp add: pow10_eq)
next
  case False
  then show ?thesis by (auto simp add: pow10_def factor_len)
qed

lemma binaryDigits_bounds: "x > 0 \<Longrightarrow> 2 ^ (binaryDigits x) \<le> 2 * x \<and> x < 2 ^ (binaryDigits x)"
proof (induction x rule: binaryDigits.induct)
  case (1 v)
  show ?case
  proof (cases "v div 2 = 0")
    case True
    with 1 have "v = 1" by (simp add: div_eq_0_iff) 
    then show ?thesis by (simp add: binaryDigits.simps)
  next
    case False
    with 1 have ih: "2 ^ binaryDigits (v div 2) \<le> 2 * (v div 2) \<and> v div 2 < 2 ^ binaryDigits (v div 2)"
      by simp
    have "binaryDigits v = Suc (binaryDigits (v div 2))" using 1 by (simp add: binaryDigits.simps)
    with ih show ?thesis by simp linarith
  qed
qed

lemma decimalDigits_bounds:
  assumes "0 < x" "x < 2 ^ 64"
  shows "1 \<le> decimalDigits x \<and> decimalDigits x \<le> 20 \<and>
         10 ^ nat (decimalDigits x - 1) \<le> x \<and> x < 10 ^ nat (decimalDigits x)"
proof -
  define k where "k = binaryDigits x"
  define h where "h = digitsHelper ! k"
  from binaryDigits_bounds [OF assms(1)] have kb: "2 ^ k \<le> 2 * x" "x < 2 ^ k"
    by (simp_all add: k_def)
  have "(2::nat) ^ k < 2 ^ 65" using kb(1) assms(2) by simp
  then have "k < 65" by (simp only: power_strict_increasing_iff [of 2]) 
  then have k64: "k \<le> 64" by simp
  from table_nth [OF k64] have t: "2 ^ k \<le> (10::nat) ^ (h + 1)" "(10::nat) ^ h \<le> 2 * 2 ^ k" "h \<le> 19"
    by (simp_all add: h_def)
  have f: "decimalFactorTable ! h = 10 ^ h" using t(3) by (rule factor_nth)
  show ?thesis
  proof (cases "x \<ge> 10 ^ h")
    case True
    then have d: "decimalDigits x = int h + 1"
      using assms(1) by (simp add: decimalDigits_def Let_def f k_def [symmetric] h_def [symmetric])
    have "x < 10 ^ (h + 1)" using kb(2) t(1) by linarith
    with True t(3) show ?thesis unfolding d by (simp add: nat_add_distrib)
  next
    case False
    then have d: "decimalDigits x = int h"
      using assms(1) by (simp add: decimalDigits_def Let_def f k_def [symmetric] h_def [symmetric])
    have hpos: "h > 0" using False assms(1) by (cases h) simp_all
    then obtain h' where h': "h = Suc h'" by (cases h) simp_all
    have "10 * (10::nat) ^ h' \<le> 4 * x" using t(2) kb(1) unfolding h' by simp
    then have "(10::nat) ^ h' \<le> x" by linarith
    moreover have "nat (int (Suc h')) = Suc h'" "nat (int (Suc h') - 1) = h'" by simp_all
    ultimately show ?thesis using False t(3) unfolding d h' by (simp only:) simp
  qed
qed

section \<open>Facts about normalization\<close>

lemma trimZeros_spec:
  "trimZeros m e eMax = (m', e') \<Longrightarrow>
     e \<le> e' \<and> (e \<le> eMax \<longrightarrow> e' \<le> eMax) \<and> m = m' * 10 ^ nat (e' - e) \<and>
     (m' mod 10 \<noteq> 0 \<or> eMax \<le> e')"
proof (induction m e eMax arbitrary: m' e' rule: trimZeros.induct)
  case (1 m e eMax)
  show ?case
  proof (cases "e < eMax \<and> m mod 10 = 0")
    case True
    then have "trimZeros (m div 10) (e + 1) eMax = (m', e')"
      using "1.prems" by (simp add: trimZeros.simps [of m e eMax])
    from "1.IH" [OF True this]
    have ih: "e + 1 \<le> e'" "e' \<le> eMax" "m div 10 = m' * 10 ^ nat (e' - (e + 1))"
      "m' mod 10 \<noteq> 0 \<or> eMax \<le> e'"
      using True by simp_all
    have "nat (e' - e) = Suc (nat (e' - (e + 1)))" using ih(1) by simp
    moreover have "m = 10 * (m div 10)" using True by presburger
    ultimately have "m = m' * 10 ^ nat (e' - e)" using ih(3) by simp
    with ih show ?thesis by simp
  next
    case False
    have "trimZeros m e eMax = (m, e)"
      by (subst trimZeros.simps) (simp only: False if_False)
    with "1.prems" have "m' = m" "e' = e" by simp_all
    with False show ?thesis by auto
  qed
qed

lemma Normalized_zero: "mant v = 0 \<Longrightarrow> Normalized v = zero"
  by (simp add: Normalized_def split_def)

lemma Normalized_nonzero:
  assumes "mant v \<noteq> 0"
  obtains m' e' where "Normalized v = fromMantAndExp m' e'" "mant (Normalized v) = m'"
    "exp (Normalized v) = e'" "0 < m'" "m' \<le> mant v" "exp v \<le> e'" "e' \<le> 128"
    "mant v = m' * 10 ^ nat (e' - exp v)" "m' mod 10 \<noteq> 0 \<or> e' = 128"
proof -
  obtain m' e' where t: "trimZeros (mant v) (exp v) maxExponent = (m', e')"
    by (cases "trimZeros (mant v) (exp v) maxExponent")
  from trimZeros_spec [OF t] exp_range [of v]
  have s: "exp v \<le> e'" "e' \<le> 128" "mant v = m' * 10 ^ nat (e' - exp v)" "m' mod 10 \<noteq> 0 \<or> e' = 128"
    by (auto simp add: consts_simps)
  have pos: "0 < m'" using assms s(3) by (cases m') simp_all
  have le: "m' \<le> mant v" using s(3) assms by simp
  then have lt: "m' < 2 ^ 56" using mant_lt [of v] by simp
  have n: "Normalized v = fromMantAndExp m' e'"
    using assms t by (simp add: Normalized_def split_def)
  have e: "exp (Normalized v) = e'" unfolding n using s exp_range [of v] by (simp add: exp_from_id)
  have m: "mant (Normalized v) = m'" unfolding n using lt by (simp add: mant_from_id)
  show ?thesis using that [OF n m e pos le s] .
qed

lemma scaledValue_Normalized: "scaledValue (Normalized v) = scaledValue v"
proof (cases "mant v = 0")
  case True
  then show ?thesis by (simp add: Normalized_zero scaledValue_def zero_split)
next
  case False
  then obtain m' e' where n: "mant (Normalized v) = m'" "exp (Normalized v) = e'"
    "exp v \<le> e'" "mant v = m' * 10 ^ nat (e' - exp v)"
    by (rule Normalized_nonzero)
  have "nat (e' - minExponent) = nat (e' - exp v) + nat (exp v - minExponent)"
    using n(3) exp_range [of v] unfolding consts_simps by linarith
  then show ?thesis
    by (simp add: scaledValue_def n power_add)
qed


section \<open>Conversion to an unsigned integer\<close>

lemma toUint64_saturates:
  assumes "valueGreater v maxMantissa"
  shows "toUint64 v = (maxMantissa, False)"
proof -
  have sv: "scaledValue (Normalized v) > maxMantissa * 10 ^ 127"
    using assms by (simp add: valueGreater_def scaledValue_Normalized consts_simps)
  define m where "m = mant (Normalized v)"
  define e where "e = exp (Normalized v)"
  have mle: "m \<le> maxMantissa" unfolding m_def by (rule mant_le)
  have er: "- 127 \<le> e" "e \<le> 128" using exp_range [of "Normalized v"] by (simp_all add: e_def)
  have val: "m * 10 ^ nat (e + 127) > maxMantissa * 10 ^ 127"
    using sv by (simp add: scaledValue_def m_def e_def consts_simps)
  have mpos: "m \<noteq> 0" using val by (cases m) simp_all
  have epos: "0 < e"
  proof (rule ccontr)
    assume "\<not> 0 < e"
    then have "nat (e + 127) \<le> 127" by simp
    then have "(10::nat) ^ nat (e + 127) \<le> 10 ^ 127" by (rule power_increasing) simp
    then have "m * 10 ^ nat (e + 127) \<le> maxMantissa * 10 ^ 127" using mle by (rule mult_le_mono [rotated])
    with val show False by simp
  qed
  have split_val: "m * 10 ^ nat e > maxMantissa"
  proof -
    have "nat (e + 127) = nat e + 127" using epos by simp
    then have "(m * 10 ^ nat e) * 10 ^ 127 > maxMantissa * 10 ^ 127" using val by (simp add: power_add)
    then show ?thesis by simp
  qed
  show ?thesis
  proof (cases "pow10 (absInt e) = 0")
    case True
    then show ?thesis using mpos epos
      by (simp add: toUint64_def Let_def m_def [symmetric] e_def [symmetric])
  next
    case False
    then have e19: "e \<le> 19" using epos by (simp add: pow10_zero_iff absInt_def)
    define intPart where "intPart = maxMantissa div m"
    define e2 where "e2 = decimalDigits intPart - 1"
    have ipm: "intPart * m \<le> maxMantissa" unfolding intPart_def by simp
    have not_cond: "\<not> (e2 > e \<or> (e2 = e \<and> maxMantissa - maxMantissa mod m \<le> u64 (intPart * m)))"
    proof
      assume c: "e2 > e \<or> (e2 = e \<and> maxMantissa - maxMantissa mod m \<le> u64 (intPart * m))"
      then have ge: "e \<le> e2" by auto
      have ip_pos: "0 < intPart"
      proof (rule ccontr)
        assume "\<not> 0 < intPart"
        then have "decimalDigits intPart = 1" by (simp add: decimalDigits_def)
        with ge epos show False by (simp add: e2_def)
      qed
      have "intPart < 2 ^ 64" using ipm mpos
        by (simp add: intPart_def consts_simps less_mult_imp_div_less)
      from decimalDigits_bounds [OF ip_pos this]
      have p2: "10 ^ nat e2 \<le> intPart" by (simp add: e2_def)
      have p1: "(10::nat) ^ nat e \<le> 10 ^ nat e2" using ge by (intro power_increasing) simp_all
      from p1 p2 have "10 ^ nat e \<le> intPart" by (rule le_trans)
      then have "m * 10 ^ nat e \<le> m * intPart" by (rule mult_le_mono2)
      also have "\<dots> = intPart * m" by (rule mult.commute)
      also note ipm
      finally show False using split_val by linarith
    qed
    show ?thesis using mpos epos False not_cond
      by (simp add: toUint64_def Let_def m_def [symmetric] e_def [symmetric]
          intPart_def [symmetric] e2_def [symmetric])
  qed
qed


text \<open>
  C9.  Whenever the numeric value of \<open>v\<close> exceeds \<^verbatim>\<open>maxMantissa\<close> \<open>= 2 ^ 56 - 1\<close>,
  \<^verbatim>\<open>toUint64\<close> returns \<^verbatim>\<open>maxMantissa\<close> with \<^verbatim>\<open>exact = false\<close>, and \<^verbatim>\<open>Uint64\<close>
  returns \<^verbatim>\<open>maxMantissa\<close>: the saturation bound is the mantissa limit, not
  \<open>2 ^ 64 - 1\<close>.
\<close>

theorem C9_Uint64_saturates_at_maxMantissa:
  "valueGreater v maxMantissa \<Longrightarrow>
     toUint64 v = (maxMantissa, False) \<and> Uint64 v = maxMantissa \<and>
     maxMantissa = 2 ^ 56 - 1 \<and> maxMantissa < 2 ^ 64 - 1"
  by (simp add: toUint64_saturates Uint64_def consts_simps)

text \<open>The witness: mantissa \<^verbatim>\<open>maxMantissa\<close> with exponent 1, whose integer value
  \<open>720575940379279350\<close> would fit in 64 bits.\<close>

theorem C9_witness:
  "valueGreater (fromMantAndExp maxMantissa 1) maxMantissa \<and>
   maxMantissa * 10 < 2 ^ 64 \<and>
   toUint64 (fromMantAndExp maxMantissa 1) = (maxMantissa, False) \<and>
   Uint64 (fromMantAndExp maxMantissa 1) = maxMantissa"
proof -
  have h: "valueGreater (fromMantAndExp maxMantissa 1) maxMantissa"
    by (simp add: valueGreater_def scaledValue_def eval_simps)
  show ?thesis
    using h C9_Uint64_saturates_at_maxMantissa [OF h] by (simp add: consts_simps)
qed

section \<open>Facts about formatting\<close>

lemma isDigit_digitChar: "d < 10 \<Longrightarrow> isDigit (digitChar d)"
proof -
  assume d: "d < 10"
  have "list_all isDigit ''0123456789''" by (simp add: isDigit_def)
  then have "\<forall>n < length ''0123456789''. isDigit (''0123456789'' ! n)"
    by (simp only: list_all_length)
  then show ?thesis using d by (simp add: digitChar_def)
qed

lemma FormatUint_digits: "list_all isDigit (FormatUint n)"
proof (induction n rule: FormatUint.induct)
  case (1 n)
  show ?case
  proof (cases "n < 10")
    case True
    then show ?thesis by (subst FormatUint.simps) (simp add: isDigit_digitChar)
  next
    case False
    with 1 show ?thesis by (subst FormatUint.simps) (simp add: isDigit_digitChar)
  qed
qed

lemma FormatUint_nonempty: "FormatUint n \<noteq> []"
  by (subst FormatUint.simps) simp

lemma manyZeros_eq: "manyZeros = replicate 145 CHR ''0''"
  unfolding manyZeros_def replicate_add [symmetric] by (simp del: replicate_numeral_eval)

lemma zeroStr_eq: "0 \<le> l \<Longrightarrow> l < 145 \<Longrightarrow> zeroStr l = replicate (nat l) CHR ''0''"
  unfolding zeroStr_def manyZeros_eq by (simp del: replicate_numeral_eval add: min_def)

lemma String_closed:
  "String v =
     (let m = mant (Normalized v); e = exp (Normalized v); s = FormatUint m
      in if m = 0 then ''0''
         else if e = 0 then s
         else if e > 0 then s @ replicate (nat e) CHR ''0''
         else if int (length s) + e \<le> 0
           then ''0'' @ [delim] @ replicate (nat (- (int (length s) + e))) CHR ''0'' @ s
         else take (nat (int (length s) + e)) s @ [delim] @ drop (nat (int (length s) + e)) s)"
proof -
  let ?e = "exp (Normalized v)"
  let ?s = "FormatUint (mant (Normalized v))"
  have er: "- 127 \<le> ?e" "?e \<le> 128" using exp_range [of "Normalized v"] by simp_all
  have len: "0 < length ?s" using FormatUint_nonempty [of "mant (Normalized v)"] by simp
  have z1: "?e > 0 \<Longrightarrow> zeroStr ?e = replicate (nat ?e) CHR ''0''" using er by (simp add: zeroStr_eq)
  have z2: "?e < 0 \<Longrightarrow> int (length ?s) + ?e \<le> 0 \<Longrightarrow>
      zeroStr (- (int (length ?s) + ?e)) = replicate (nat (- (int (length ?s) + ?e))) CHR ''0''"
    using er len by (intro zeroStr_eq) linarith+
  show ?thesis
    unfolding String_def split_def Let_def fst_conv snd_conv
    using z1 z2 by (auto simp del: replicate_numeral_eval)
qed


lemma digits_no_delim: "list_all isDigit s \<Longrightarrow> filter (\<lambda>c. c = delim) s = []"
  by (induction s) (auto simp add: isDigit_def delim_def)

lemma digits_take: "list_all isDigit s \<Longrightarrow> list_all isDigit (take n s)"
  by (auto simp add: list_all_iff dest: in_set_takeD)

lemma digits_drop: "list_all isDigit s \<Longrightarrow> list_all isDigit (drop n s)"
  by (auto simp add: list_all_iff dest: in_set_dropD)

lemma digits_weaken: "list_all isDigit s \<Longrightarrow> list_all (\<lambda>c. isDigit c \<or> c = delim) s"
  by (auto simp add: list_all_iff)

lemma digits_replicate: "list_all isDigit (replicate n CHR ''0'')"
  by (simp add: list_all_iff isDigit_def)

text \<open>
  C10.  For every value, \<^verbatim>\<open>String\<close> writes decimal digits and at most one \<^verbatim>\<open>'.'\<close>; in
  particular no \<^verbatim>\<open>'e'\<close>: the exponent is at most 128 and at least \<open>-127\<close>, so the run
  of zeros asked of \<^verbatim>\<open>zeroStr\<close> is never longer than the 144 zeros it can return, and
  the \<^verbatim>\<open>moreZeros\<close> suffix is never written.
\<close>

theorem C10_String_digits_and_one_delimiter:
  "list_all (\<lambda>c. isDigit c \<or> c = delim) (String v) \<and>
   length (filter (\<lambda>c. c = delim) (String v)) \<le> 1 \<and>
   CHR ''e'' \<notin> set (String v)"
proof -
  let ?s = "FormatUint (mant (Normalized v))"
  have d: "list_all isDigit ?s" by (rule FormatUint_digits)
  note facts = d digits_take [OF d] digits_drop [OF d] digits_replicate
  have a: "list_all (\<lambda>c. isDigit c \<or> c = delim) (String v)"
    unfolding String_closed Let_def
    using facts [THEN digits_weaken] by (simp add: isDigit_def del: replicate_numeral_eval)
  have b: "length (filter (\<lambda>c. c = delim) (String v)) \<le> 1"
    unfolding String_closed Let_def
    using facts [THEN digits_no_delim] by (simp add: delim_def del: replicate_numeral_eval)
  have "\<not> (isDigit CHR ''e'' \<or> CHR ''e'' = delim)" by (simp add: isDigit_def delim_def)
  with a have c: "CHR ''e'' \<notin> set (String v)" unfolding list_all_iff by blast
  from a b c show ?thesis by simp
qed

section \<open>Compact JSON\<close>

text \<open>
  C7.  The claim: the compact mode is never longer than the string mode or the
  mantissa/exponent mode.  For \<open>10 ^ (-12)\<close> \<^verbatim>\<open>calcStrLen\<close> estimates 15 bytes for the
  string form, which has 16 (it counts one byte for \<^verbatim>\<open>"0."\<close>), \<^verbatim>\<open>jsonMELen\<close> is 15,
  and the compact mode picks the string form: 16 bytes against the 15 of the object.
  For zero the compact mode picks the object form, 16 bytes against the 3 of the string.
\<close>

theorem C7_compact_not_shortest:
  \<open>toJSON fmtFloat (FromMantAndExp 1 (- 12)) JSONModeCompact = ''"0.000000000001"'' \<and>
   toJSON fmtFloat (FromMantAndExp 1 (- 12)) JSONModeME = ''{"m":1,"e":-12}'' \<and>
   length (toJSON fmtFloat (FromMantAndExp 1 (- 12)) JSONModeCompact) = 16 \<and>
   length (toJSON fmtFloat (FromMantAndExp 1 (- 12)) JSONModeME) = 15 \<and>
   toJSON fmtFloat zero JSONModeCompact = ''{"m":0,"e":-127}'' \<and>
   toJSON fmtFloat zero JSONModeString = ''"0"''\<close>
  by (simp add: eval_simps str_simps FromMantAndExp_def from_eq_iff)

section \<open>Parse errors\<close>

lemma prepareString_spaces_minus: "prepareString ''   --'' = (''-'', 4, True)"
  apply (simp add: prepareString_def Let_def)
  apply (simp add: leadingRune_def spaceRunes_def trimLeftSpace_def trimRunes.simps)
  apply (simp add: leadingRune_def spaceRunes_def trimRightSpace_def trimRunes.simps)
  done

text \<open>
  C8, as stated: \<^verbatim>\<open>FromString("   --")\<close> fails with a parse error that carries a
  position.  It does not: the result is no \<open>ParsingFailed\<close> error.
\<close>

theorem C8_counterexample: "\<not> isParsingFailed (FromString rejectFloat ''   --'')"
  by (simp add: FromString_def prepareString_spaces_minus)

text \<open>
  C8, amended: \<^verbatim>\<open>prepareString\<close> takes the first \<^verbatim>\<open>'-'\<close> as the sign (with the
  offset 4 of the four bytes removed), and \<^verbatim>\<open>FromString\<close> returns the error
  \<^verbatim>\<open>negative value\<close>, which has no position, before the second \<^verbatim>\<open>'-'\<close> is read.
\<close>

theorem C8_negative_value:
  "prepareString ''   --'' = (''-'', 4, True) \<and>
   FromString viaFloat ''   --'' = Inl NegativeValue"
  by (simp add: FromString_def prepareString_spaces_minus)

section \<open>Absence of faults\<close>

lemma decimalDigits_zero: "decimalDigits 0 = 1"
  by (simp add: decimalDigits_def)

lemma decimalDigits_pos: "x < 2 ^ 64 \<Longrightarrow> 1 \<le> decimalDigits x"
  using decimalDigits_bounds [of x] by (cases "x = 0") (simp_all add: decimalDigits_zero)

lemma decimalDigits_le:
  assumes "x < 10 ^ k" "k \<le> 19" "1 \<le> k"
  shows "decimalDigits x \<le> int k"
proof (cases "x = 0")
  case True
  then show ?thesis using assms(3) by (simp add: decimalDigits_zero)
next
  case False
  have "(10::nat) ^ k \<le> 10 ^ 19" using assms(2) by (intro power_increasing) simp_all
  then have x64: "x < 2 ^ 64" using assms(1) by simp
  from decimalDigits_bounds [OF _ x64] False
  have b: "10 ^ nat (decimalDigits x - 1) \<le> x" "1 \<le> decimalDigits x" by simp_all
  have "(10::nat) ^ nat (decimalDigits x - 1) < 10 ^ k" using b(1) assms(1) by (rule le_less_trans)
  then have "nat (decimalDigits x - 1) < k" by (simp only: power_strict_increasing_iff [of 10])
  then show ?thesis using b(2) by linarith
qed

lemma decimalDigits_upper: "x < 2 ^ 64 \<Longrightarrow> x < 10 ^ nat (decimalDigits x)"
  using decimalDigits_bounds [of x] by (cases "x = 0") (simp_all add: decimalDigits_zero)

lemma mul64_ok:
  assumes "a < 2 ^ 56" "b < 2 ^ 56"
  shows "\<exists>r. mul64 a b = Inr r"
proof -
  define hi where "hi = (a * b) div 2 ^ 64"
  have "a * b < 2 ^ 56 * 2 ^ 56" using assms by (intro mult_strict_mono) simp_all
  then have hi48: "hi < 2 ^ 48" unfolding hi_def by (simp add: less_mult_imp_div_less)
  then have hi15: "hi < 10 ^ 15" by simp
  have dd: "decimalDigits hi \<le> 15" using decimalDigits_le [OF hi15] by simp
  have dd1: "1 \<le> decimalDigits hi" using hi48 by (intro decimalDigits_pos) simp
  have "hi < 10 ^ nat (decimalDigits hi)" using hi48 by (intro decimalDigits_upper) simp
  moreover have "pow10 (decimalDigits hi) = 10 ^ nat (decimalDigits hi)"
    using dd dd1 by (intro pow10_eq) simp_all
  ultimately have "pow10 (decimalDigits hi) \<noteq> 0 \<and> \<not> pow10 (decimalDigits hi) \<le> hi" by simp
  then show ?thesis
    unfolding mul64_def Let_def hi_def [symmetric] by simp
qed

lemma Mul_ok: "\<exists>r. Mul a b = Inr r"
proof -
  obtain r where "mul64 (mant (Normalized a)) (mant (Normalized b)) = Inr r"
    using mul64_ok [OF mant_lt mant_lt] by blast
  then show ?thesis
    unfolding Mul_def Let_def split_def by (cases r) simp
qed

lemma doToEqualExp_ok: "m1 \<noteq> 0 \<Longrightarrow> \<exists>r. doToEqualExp m1 e1 m2 e2 = Inr r"
  unfolding doToEqualExp_def Let_def by (simp split: prod.split)

lemma toEqualExp_ok:
  assumes "m1 \<noteq> 0" "m2 \<noteq> 0"
  shows "\<exists>r. toEqualExp m1 e1 m2 e2 = Inr r"
proof (cases "e1 \<ge> e2")
  case True
  then show ?thesis using doToEqualExp_ok [OF assms(1)] by (simp add: toEqualExp_def)
next
  case False
  obtain r where "doToEqualExp m2 e2 m1 e1 = Inr r" using doToEqualExp_ok [OF assms(2)] by blast
  with False show ?thesis by (cases r) (simp add: toEqualExp_def)
qed

lemma Sub_ok: "\<exists>r. Sub a b = Inr r"
proof (cases "mant a = 0 \<or> mant b = 0")
  case True
  then show ?thesis unfolding Sub_def split_def by auto
next
  case False
  then obtain r where "toEqualExp (mant a) (exp a) (mant b) (exp b) = Inr r"
    using toEqualExp_ok by blast
  with False show ?thesis unfolding Sub_def split_def by (cases r) simp
qed

lemma Add_ok: "\<exists>r. Add a b = Inr r"
proof (cases "mant a = 0 \<or> mant b = 0")
  case True
  then show ?thesis unfolding Add_def split_def by auto
next
  case False
  then obtain r where "toEqualExp (mant a) (exp a) (mant b) (exp b) = Inr r"
    using toEqualExp_ok by blast
  with False show ?thesis unfolding Add_def split_def by (cases r) simp
qed

lemma roundCut_ok:
  assumes "0 < dd" "dd \<le> 19"
  shows "\<exists>r. roundCut n e ei dd toCut0 prec md = Inr r"
proof (cases "toCut0 \<le> 0")
  case True
  then show ?thesis by (simp add: roundCut_def)
next
  case False
  define toCut where "toCut = (if toCut0 > dd then dd else toCut0)"
  have "0 < toCut" "toCut \<le> 19" using False assms by (simp_all add: toCut_def)
  then have "pow10 toCut \<noteq> 0" by (simp add: pow10_zero_iff)
  then show ?thesis
    using False unfolding roundCut_def Let_def toCut_def [symmetric]
    by (cases md) simp_all
qed

lemma round_ok:
  assumes "n < 10 ^ 19"
  shows "\<exists>r. round n e prec md = Inr r"
proof -
  have n64: "n < 2 ^ 64" using assms by simp
  have dd: "1 \<le> decimalDigits n" "decimalDigits n \<le> 19"
    using decimalDigits_pos [OF n64] decimalDigits_le [OF assms] by simp_all
  show ?thesis
  proof (cases "prec \<ge> 0 \<or> \<not> e < 0")
    case True
    then show ?thesis
      unfolding round_def Let_def using roundCut_ok [of "decimalDigits n"] dd by auto
  next
    case False
    show ?thesis
    proof (cases "decimalDigits n + e \<le> 0")
      case True
      with False show ?thesis unfolding round_def Let_def by simp
    next
      case le: False
      then have "0 < - e" "- e \<le> 19" using False dd by simp_all
      then have p: "pow10 (- e) \<noteq> 0" by (simp add: pow10_zero_iff)
      have "0 < decimalDigits n + e" "decimalDigits n + e \<le> 19" using le False dd by simp_all
      from roundCut_ok [OF this] show ?thesis
        using False le p unfolding round_def Let_def by simp
    qed
  qed
qed


lemma mant_Normalized_zero_iff: "mant (Normalized b) = 0 \<longleftrightarrow> mant b = 0"
proof (cases "mant b = 0")
  case True
  then show ?thesis by (simp add: Normalized_zero zero_split)
next
  case False
  then obtain m' e' where "mant (Normalized b) = m'" "0 < m'" by (rule Normalized_nonzero)
  with False show ?thesis by simp
qed

lemma trimZeros_le: "trimZeros q e eMax = (q', e') \<Longrightarrow> q' \<le> q"
proof -
  assume "trimZeros q e eMax = (q', e')"
  from trimZeros_spec [OF this] have "q = q' * 10 ^ nat (e' - e)" by simp
  then show ?thesis by (cases "q' = 0") simp_all
qed

lemma divMod_zero: "mant v2 = 0 \<Longrightarrow> divMod v1 v2 = Inl DivisionByZero"
  by (simp add: divMod_def split_def)

lemma divMod_ok:
  assumes "mant v2 \<noteq> 0"
  shows "\<exists>q r e. divMod v1 v2 = Inr (q, r, e) \<and> (r = 0 \<or> q < 10 ^ 19)"
proof (cases "mant v1 = 0 \<or> mant v1 mod mant v2 = 0")
  case True
  then show ?thesis using assms unfolding divMod_def split_def by auto
next
  case False
  let ?m1 = "u64 (mant v1 * pow10 (log10 (maxNumber div mant v1)))"
  have "mant v2 \<noteq> 1" using False by auto
  then have m2: "2 \<le> mant v2" using assms by simp
  have "?m1 < 2 ^ 64" by (simp add: u64_def)
  then have "?m1 div mant v2 < 2 ^ 63" using m2
    by (simp add: less_mult_imp_div_less)
  then have "?m1 div mant v2 < 10 ^ 19" by simp
  then show ?thesis
    using False assms unfolding divMod_def split_def Let_def by simp
qed

lemma DivMod_zero: "mant b = 0 \<Longrightarrow> DivMod a b p = Inl DivisionByZero"
  by (simp add: DivMod_def Let_def divMod_zero mant_Normalized_zero_iff)

lemma DivMod_ok:
  assumes "mant b \<noteq> 0"
  shows "\<exists>r. DivMod a b p = Inr r"
proof -
  have nb: "mant (Normalized b) \<noteq> 0" using assms by (simp add: mant_Normalized_zero_iff)
  from divMod_ok [OF nb] obtain q r e
    where d: "divMod (Normalized a) (Normalized b) = Inr (q, r, e)" and q: "r = 0 \<or> q < 10 ^ 19"
    by blast
  show ?thesis
  proof (cases "r = 0")
    case True
    with d show ?thesis by (simp add: DivMod_def Let_def)
  next
    case False
    obtain q1 e1 where t: "(if e < maxExponent then trimZeros q e maxExponent else (q, e)) = (q1, e1)"
      by (cases "if e < maxExponent then trimZeros q e maxExponent else (q, e)")
    have "q1 \<le> q" using t by (auto split: if_splits dest: trimZeros_le)
    then have "q1 < 10 ^ 19" using q False by simp
    from round_ok [OF this] obtain q2 e2 where r: "round q1 e1 p modeFloor = Inr (q2, e2)"
      by fastforce
    obtain pr where m: "Mul (Normalized b) (adjustMantExp q2 e2) = Inr pr" using Mul_ok by blast
    obtain rem neg where s: "Sub (Normalized a) pr = Inr (rem, neg)" using Sub_ok by fastforce
    show ?thesis using d False t r m s by (simp add: DivMod_def Let_def)
  qed
qed

lemma Div_zero: "mant b = 0 \<Longrightarrow> Div flt a b = Inl DivisionByZero"
  by (simp add: Div_def Let_def divMod_zero mant_Normalized_zero_iff)

lemma Div_ok:
  assumes "mant b \<noteq> 0"
  shows "\<exists>r. Div flt a b = Inr r"
proof -
  have nb: "mant (Normalized b) \<noteq> 0" using assms by (simp add: mant_Normalized_zero_iff)
  from divMod_ok [OF nb] obtain q r e
    where d: "divMod (Normalized a) (Normalized b) = Inr (q, r, e)" by blast
  show ?thesis using d nb by (simp add: Div_def Let_def float64Div_def)
qed

text \<open>
  C5.  \<^verbatim>\<open>Div\<close> and \<^verbatim>\<open>DivMod\<close> panic with \<^verbatim>\<open>division by zero\<close> exactly when the
  divisor has a zero mantissa, and for every other divisor they return a value: none
  of the run-time panics of the operations they call (integer division by the
  sentinel 0 of \<^verbatim>\<open>pow10\<close>, \<^verbatim>\<open>bits.Div64\<close>) can occur.  The float path of \<^verbatim>\<open>Div\<close> is the
  parameter \<open>flt\<close>.
\<close>

theorem C5_division_faults_iff_zero_divisor:
  "(DivMod a b p = Inl DivisionByZero) = (mant b = 0) \<and>
   isl (DivMod a b p) = (mant b = 0) \<and>
   (Div flt a b = Inl DivisionByZero) = (mant b = 0) \<and>
   isl (Div flt a b) = (mant b = 0)"
proof (cases "mant b = 0")
  case True
  then show ?thesis by (simp add: DivMod_zero Div_zero)
next
  case False
  obtain r1 where "DivMod a b p = Inr r1" using DivMod_ok [OF False] by blast
  moreover obtain r2 where "Div flt a b = Inr r2" using Div_ok [OF False] by blast
  ultimately show ?thesis using False by simp
qed

section \<open>Comparison\<close>

lemma i32_small: "- 1000 \<le> x \<Longrightarrow> x \<le> 1000 \<Longrightarrow> i32 x = x"
  by (simp add: i32_def)

lemma mant_digits:
  assumes "mant v \<noteq> 0"
  shows "1 \<le> decimalDigits (mant v)" "decimalDigits (mant v) \<le> 17"
    "10 ^ nat (decimalDigits (mant v) - 1) \<le> mant v" "mant v < 10 ^ nat (decimalDigits (mant v))"
proof -
  have lt: "mant v < 2 ^ 64" using mant_lt [of v] by simp
  from decimalDigits_bounds [OF _ lt] assms
  show "1 \<le> decimalDigits (mant v)" "10 ^ nat (decimalDigits (mant v) - 1) \<le> mant v"
    "mant v < 10 ^ nat (decimalDigits (mant v))" by simp_all
  have "mant v < 10 ^ 17" using mant_lt [of v] by simp
  from decimalDigits_le [OF this] show "decimalDigits (mant v) \<le> 17" by simp
qed

lemma scaledValue_eq: "scaledValue v = mant v * 10 ^ nat (exp v + 127)"
  by (simp add: scaledValue_def consts_simps)

lemma uint64Cmp_ge: "b \<le> a \<Longrightarrow> 0 \<le> uint64Cmp a b"
  by (simp add: uint64Cmp_def)

lemma Cmp_ge:
  assumes a0: "mant a \<noteq> 0" and b0: "mant b \<noteq> 0" and le: "scaledValue b \<le> scaledValue a"
  shows "0 \<le> Cmp a b"
proof -
  define m1 e1 m2 e2 where "m1 = mant a" and "e1 = exp a" and "m2 = mant b" and "e2 = exp b"
  define d1 d2 where "d1 = decimalDigits m1" and "d2 = decimalDigits m2"
  have r1: "- 127 \<le> e1" "e1 \<le> 128" and r2: "- 127 \<le> e2" "e2 \<le> 128"
    using exp_range [of a] exp_range [of b] by (simp_all add: e1_def e2_def)
  have ediff: "i32 (e1 - e2) = e1 - e2" using r1 r2 by (intro i32_small) simp_all
  note da = mant_digits [OF a0, folded m1_def d1_def]
  note db = mant_digits [OF b0, folded m2_def d2_def]
  have S: "m2 * 10 ^ nat (e2 + 127) \<le> m1 * 10 ^ nat (e1 + 127)"
    using le by (simp add: scaledValue_eq m1_def m2_def e1_def e2_def)
  have unfold: "Cmp a b =
     (if e1 - e2 = 0 then uint64Cmp m1 m2
      else if e1 + d1 > e2 + d2 then 1
      else if e1 + d1 < e2 + d2 then - 1
      else if e1 - e2 > 0 then uint64Cmp (u64 (m1 * pow10 (e1 - e2))) m2
      else uint64Cmp m1 (u64 (m2 * pow10 (- (e1 - e2)))))"
    using a0 b0
    by (simp add: Cmp_def split_def Let_def ediff [unfolded e1_def e2_def] m1_def e1_def m2_def
        e2_def d1_def d2_def)
  show ?thesis
  proof (cases "e1 - e2 = 0")
    case True
    then have "e1 = e2" by simp
    with S have "m2 \<le> m1" by simp
    then show ?thesis unfolding unfold using True by (simp add: uint64Cmp_ge)
  next
    case ne: False
    show ?thesis
    proof (cases "e1 + d1 > e2 + d2")
      case True
      then show ?thesis unfolding unfold using ne by simp
    next
      case ngt: False
      have nlt: "\<not> e1 + d1 < e2 + d2"
      proof
        assume lt: "e1 + d1 < e2 + d2"
        have "m1 * 10 ^ nat (e1 + 127) < 10 ^ nat d1 * 10 ^ nat (e1 + 127)"
          using da(4) by simp
        also have "\<dots> = 10 ^ (nat d1 + nat (e1 + 127))" by (simp add: power_add)
        also have "\<dots> \<le> 10 ^ (nat (d2 - 1) + nat (e2 + 127))"
          using lt r1 r2 da(1) db(1) by (intro power_increasing) simp_all
        also have "\<dots> = 10 ^ nat (d2 - 1) * 10 ^ nat (e2 + 127)" by (simp add: power_add)
        also have "\<dots> \<le> m2 * 10 ^ nat (e2 + 127)" using db(3) by simp
        finally show False using S by simp
      qed
      from ngt nlt have eq: "e1 + d1 = e2 + d2" by simp
      show ?thesis
      proof (cases "e1 - e2 > 0")
        case True
        define k where "k = nat (e1 - e2)"
        have k: "e1 - e2 = int k" "nat d2 = nat d1 + k" "k \<le> 16"
          using True eq da(1,2) db(1,2) by (simp_all add: k_def)
        have p: "pow10 (e1 - e2) = 10 ^ k" unfolding k(1) using k(3) by (simp add: pow10_eq)
        have "m1 * 10 ^ k < 10 ^ nat d1 * 10 ^ k" using da(4) by simp
        also have "\<dots> = 10 ^ nat d2" by (simp add: k(2) power_add)
        also have "\<dots> \<le> 10 ^ 17" using db(2) by (intro power_increasing) simp_all
        finally have nowrap: "u64 (m1 * 10 ^ k) = m1 * 10 ^ k" by (simp add: u64_def)
        have "nat (e1 + 127) = k + nat (e2 + 127)" using k(1) r2 by simp
        then have "m2 * 10 ^ nat (e2 + 127) \<le> (m1 * 10 ^ k) * 10 ^ nat (e2 + 127)"
          using S by (simp add: power_add)
        then have "m2 \<le> m1 * 10 ^ k" by simp
        then show ?thesis unfolding unfold using ne ngt nlt True by (simp add: p nowrap uint64Cmp_ge)
      next
        case False
        define k where "k = nat (e2 - e1)"
        have k: "- (e1 - e2) = int k" "nat d1 = nat d2 + k" "k \<le> 16"
          using False ne eq da(1,2) db(1,2) by (simp_all add: k_def)
        have "e2 - e1 = int k" using k(1) by simp
        then have p: "pow10 (e2 - e1) = 10 ^ k" using k(3) by (simp add: pow10_eq)
        have "m2 * 10 ^ k < 10 ^ nat d2 * 10 ^ k" using db(4) by simp
        also have "\<dots> = 10 ^ nat d1" by (simp add: k(2) power_add)
        also have "\<dots> \<le> 10 ^ 17" using da(2) by (intro power_increasing) simp_all
        finally have nowrap: "u64 (m2 * 10 ^ k) = m2 * 10 ^ k" by (simp add: u64_def)
        have "nat (e2 + 127) = k + nat (e1 + 127)" using k(1) r1 by simp
        then have "(m2 * 10 ^ k) * 10 ^ nat (e1 + 127) \<le> m1 * 10 ^ nat (e1 + 127)"
          using S by (simp add: power_add)
        then have "m2 * 10 ^ k \<le> m1" by simp
        then show ?thesis unfolding unfold using ne ngt nlt False by (simp add: p nowrap uint64Cmp_ge)
      qed
    qed
  qed
qed


section \<open>Rounding up\<close>

lemma adjustMantExp_id:
  assumes "0 < m" "m \<le> maxMantissa" "- 127 \<le> e" "e \<le> 128"
  shows "adjustMantExp m e = fromMantAndExp m e"
proof -
  have l1: "adjustLoop1 m e = (m, e)"
    using assms by (subst adjustLoop1.simps) (simp add: consts_simps)
  have l2: "adjustLoop2 m e = (m, e)"
    using assms by (subst adjustLoop2.simps) (simp add: consts_simps)
  show ?thesis using assms by (simp add: adjustMantExp_def l1 l2 consts_simps)
qed

lemma adjustLoop2_scale:
  "0 < m0 \<Longrightarrow> m0 * 10 ^ j < 2 ^ 56 \<Longrightarrow> adjustLoop2 m0 (128 + int j) = (m0 * 10 ^ j, 128)"
proof (induction j arbitrary: m0)
  case 0
  then show ?case by (subst adjustLoop2.simps) (simp add: consts_simps)
next
  case (Suc j)
  have lt: "m0 * 10 * 10 ^ j < 2 ^ 56" using Suc.prems(2) by (simp add: mult.assoc)
  have "m0 * 10 * 1 \<le> m0 * 10 * 10 ^ j" by (rule mult_le_mono2) simp
  then have "m0 * 10 < 2 ^ 56" using lt by (simp only: mult_1_right le_less_trans)
  then have "m0 * 10 < 72057594037927936" by simp
  then have small: "m0 * 10 < 72057594037927935" by presburger
  then have nowrap: "u64 (m0 * 10) = m0 * 10" by (simp add: u64_def)
  have "adjustLoop2 m0 (128 + int (Suc j)) = adjustLoop2 (m0 * 10) (128 + int j)"
    using small by (subst adjustLoop2.simps) (simp add: consts_simps nowrap)
  also have "\<dots> = (m0 * 10 * 10 ^ j, 128)" using Suc.prems(1) lt by (intro Suc.IH) simp_all
  finally show ?case by (simp add: mult.assoc)
qed

lemma adjustMantExp_scale:
  assumes "0 < m0" "m0 * 10 ^ j < 2 ^ 56"
  shows "adjustMantExp m0 (128 + int j) = fromMantAndExp (m0 * 10 ^ j) 128"
proof -
  have "m0 \<le> m0 * 10 ^ j" by simp
  then have "m0 < 2 ^ 56" using assms(2) by (rule le_less_trans)
  then have l1: "adjustLoop1 m0 (128 + int j) = (m0, 128 + int j)"
    by (subst adjustLoop1.simps) (simp add: consts_simps)
  show ?thesis
    using assms by (simp add: adjustMantExp_def l1 adjustLoop2_scale consts_simps)
qed

lemma i64_small: "- 9223372036854775808 \<le> x \<Longrightarrow> x < 9223372036854775808 \<Longrightarrow> i64 x = x"
  by (simp add: i64_def)

lemma unitAt_eq: "unitAt prec = 10 ^ nat (127 - prec)"
  by (simp add: unitAt_def consts_simps)

lemma round_ceil_nonneg:
  assumes m0: "0 < m" and m56: "m < 2 ^ 56" and er: "- 127 \<le> e" "e \<le> 128"
    and pr: "0 \<le> prec" "prec \<le> 2 ^ 63 - 129"
  shows "\<exists>n' e'. round m e prec modeCeil = Inr (n', e') \<and> 0 < n' \<and> n' \<le> m \<and>
           - 127 \<le> e' \<and> e' \<le> 128 \<and>
           m * 10 ^ nat (e + 127) \<le> n' * 10 ^ nat (e' + 127) \<and>
           n' * 10 ^ nat (e' + 127) < m * 10 ^ nat (e + 127) + 10 ^ nat (127 - prec) \<and>
           10 ^ nat (127 - prec) dvd n' * 10 ^ nat (e' + 127)"
proof -
  define dd where "dd = decimalDigits m"
  define W :: nat where "W = 10 ^ nat (e + 127)"
  define U :: nat where "U = 10 ^ nat (127 - prec)"
  have W0: "0 < W" and U0: "0 < U" by (simp_all add: W_def U_def)
  have m17: "m < 10 ^ 17" using m56 by simp
  have m64: "m < 2 ^ 64" using m56 by simp
  have dd: "1 \<le> dd" "dd \<le> 17"
    using decimalDigits_le [OF m17] decimalDigits_pos [of m] m56 by (simp_all add: dd_def)
  have mdd: "m < 10 ^ nat dd" unfolding dd_def using m64 by (rule decimalDigits_upper)
  define t0 where "t0 = - e - prec"
  have t0: "i64 (- e - prec) = t0" unfolding t0_def using er pr by (intro i64_small) simp_all
  have r: "round m e prec modeCeil = roundCut m e e dd t0 prec modeCeil"
    using pr(1) by (simp add: round_def Let_def dd_def t0)
  show ?thesis
  proof (cases "t0 \<le> 0")
    case True
    then have res: "round m e prec modeCeil = Inr (m, e)" by (simp add: r roundCut_def)
    have "nat (127 - prec) \<le> nat (e + 127)" using True by (simp add: t0_def)
    then have "U dvd W" unfolding U_def W_def by (rule le_imp_power_dvd)
    then have "U dvd m * W" by (rule dvd_mult)
    then show ?thesis using m0 er U0 res by (simp add: W_def U_def)
  next
    case False
    define t where "t = (if t0 > dd then dd else t0)"
    define k where "k = nat t"
    have t: "0 < t" "t \<le> 17" "t \<le> t0" "t = int k" using False dd by (simp_all add: t_def k_def)
    have "pow10 t = 10 ^ nat t" using t(1,2) by (intro pow10_eq) simp_all
    then have p: "pow10 t = 10 ^ k" by (simp only: k_def)
    have et: "i64 (e + t) = e + t" "i32 (e + t) = e + t" "- 127 \<le> e + t" "e + t \<le> 128"
      using er t pr by (simp_all add: i64_small i32_small t0_def)
    have prec: "prec \<le> 126" "i32 (i64 (- prec)) = - prec"
      using False er pr(1) by (simp_all add: t0_def i64_small i32_small)
    have k1: "1 \<le> k" using t by simp
    then have p10: "(10::nat) \<le> 10 ^ k" using power_increasing [of 1 k "10::nat"] by simp
    have mdecomp: "m = (m div 10 ^ k) * 10 ^ k + m mod 10 ^ k"
      by (rule div_mult_mod_eq [symmetric])
    have modlt: "m mod 10 ^ k < 10 ^ k" by simp
    have ek: "nat (e + t + 127) = k + nat (e + 127)" using er t by simp
    have Wk: "10 ^ nat (e + t + 127) = 10 ^ k * W" by (simp add: ek power_add W_def)
    have U_t0: "U = 10 ^ nat t0 * W"
    proof -
      have "nat (127 - prec) = nat t0 + nat (e + 127)" using False er by (simp add: t0_def)
      then show ?thesis by (simp add: U_def W_def power_add)
    qed
    have cut: "roundCut m e e dd t0 prec modeCeil =
       (if m mod 10 ^ k \<noteq> 0 then
          (if m div 10 ^ k > 0 then Inr (u64 (m div 10 ^ k + 1), e + t)
           else Inr (1, - prec))
        else Inr (m div 10 ^ k, e + t))"
      using False pr(1)
      by (simp add: roundCut_def Let_def t_def [symmetric] p et prec)
    have full: "t = t0" if "0 < m div 10 ^ k"
    proof (rule ccontr)
      assume "t \<noteq> t0"
      then have "t = dd" by (simp add: t_def split: if_splits)
      then have "m < 10 ^ k" using mdd by (simp add: k_def)
      then show False using that by simp
    qed
    show ?thesis
    proof (cases "m mod 10 ^ k = 0")
      case True
      then have m: "m = (m div 10 ^ k) * 10 ^ k" using mdecomp by simp
      then have pos: "0 < m div 10 ^ k" using m0 by (cases "m div 10 ^ k = 0") simp_all
      have tt: "t = t0" using pos by (rule full)
      have Uk: "U = 10 ^ k * W" using U_t0 tt by (simp add: k_def)
      have "m * W = (m div 10 ^ k) * (10 ^ k * W)"
        by (subst m) (simp only: mult.assoc)
      then have eq: "(m div 10 ^ k) * 10 ^ nat (e + t + 127) = m * W" by (simp only: Wk)
      have "U dvd (m div 10 ^ k) * 10 ^ nat (e + t + 127)" by (simp only: Wk Uk dvd_triv_right)
      then show ?thesis using True pos et U0 eq
        by (simp add: r cut W_def [symmetric] U_def [symmetric])
    next
      case rem: False
      show ?thesis
      proof (cases "m div 10 ^ k > 0")
        case True
        have tt: "t = t0" using True by (rule full)
        have Uk: "U = 10 ^ k * W" using U_t0 tt by (simp add: k_def)
        have "m div 10 ^ k \<le> m div 10" using p10 by (rule div_le_mono2 [rotated]) simp
        also have "\<dots> < m" using m0 by simp
        finally have le: "m div 10 ^ k + 1 \<le> m" by simp
        then have nowrap: "u64 (m div 10 ^ k + 1) = m div 10 ^ k + 1"
          using m56 by (simp add: u64_def)
        have exp1: "(m div 10 ^ k + 1) * 10 ^ k = (m div 10 ^ k) * 10 ^ k + 10 ^ k"
          by (simp only: add_mult_distrib mult_1)
        then have "m \<le> (m div 10 ^ k + 1) * 10 ^ k"
          using mdecomp modlt by linarith
        then have "m * W \<le> ((m div 10 ^ k + 1) * 10 ^ k) * W"
          by (rule mult_le_mono1)
        then have ge: "m * W \<le> (m div 10 ^ k + 1) * 10 ^ nat (e + t + 127)"
          by (simp only: Wk mult.assoc)
        have "(m div 10 ^ k) * 10 ^ k < m" using mdecomp rem by linarith
        then have "(m div 10 ^ k + 1) * 10 ^ k < m + 10 ^ k" using exp1 by linarith
        then have "((m div 10 ^ k + 1) * 10 ^ k) * W < (m + 10 ^ k) * W"
          using W0 by (simp only: mult_less_cancel2)
        then have lt: "(m div 10 ^ k + 1) * 10 ^ nat (e + t + 127) < m * W + U"
          by (simp only: Wk Uk mult.assoc add_mult_distrib)
        have dv: "U dvd (m div 10 ^ k + 1) * 10 ^ nat (e + t + 127)"
          by (simp only: Wk Uk dvd_triv_right)
        have "u64 (Suc (m div 10 ^ k)) = Suc (m div 10 ^ k)" using nowrap by simp
        then show ?thesis using rem True et le ge lt dv
          by (simp add: r cut W_def [symmetric] U_def [symmetric])
      next
        case zero: False
        then have "m < 10 ^ k" by (simp add: div_eq_0_iff)
        also have "(10::nat) ^ k \<le> 10 ^ nat t0" using t by (intro power_increasing) simp_all
        finally have "m * W \<le> 10 ^ nat t0 * W" by simp
        then have ge: "m * W \<le> U" by (simp only: U_t0)
        have e127: "nat (- prec + 127) = nat (127 - prec)" by simp
        have "0 < m * W" using m0 W0 by simp
        then have lt: "U < m * W + U" by simp
        show ?thesis using rem zero prec pr(1) m0 ge lt
          by (simp add: r cut e127 W_def [symmetric] U_def [symmetric])
      qed
    qed
  qed
qed


lemma Ceil_nonneg:
  assumes "mant v \<noteq> 0" "0 \<le> prec" "prec \<le> 2 ^ 63 - 129"
  shows "\<exists>r. Ceil v prec = Inr r \<and> 0 \<le> Cmp r v \<and> isCeilAt prec v r"
proof -
  have m0: "0 < mant v" using assms(1) by simp
  from round_ceil_nonneg [OF m0 mant_lt _ _ assms(2,3), of "exp v"] exp_range [of v]
  obtain n' e' where r: "round (mant v) (exp v) prec modeCeil = Inr (n', e')"
    and n: "0 < n'" "n' \<le> mant v" and e: "- 127 \<le> e'" "e' \<le> 128"
    and le: "mant v * 10 ^ nat (exp v + 127) \<le> n' * 10 ^ nat (e' + 127)"
    and lt: "n' * 10 ^ nat (e' + 127) < mant v * 10 ^ nat (exp v + 127) + 10 ^ nat (127 - prec)"
    and dv: "10 ^ nat (127 - prec) dvd n' * 10 ^ nat (e' + 127)"
    by auto
  have nmax: "n' \<le> maxMantissa" using n(2) mant_le [of v] by simp
  have n56: "n' < 2 ^ 56" using n(2) mant_lt [of v] by simp
  have c: "Ceil v prec = Inr (fromMantAndExp n' e')"
    by (simp add: Ceil_def roundValue_def split_def r adjustMantExp_id [OF n(1) nmax e])
  have s: "scaledValue (fromMantAndExp n' e') = n' * 10 ^ nat (e' + 127)"
    using e n56 by (simp add: scaledValue_eq mant_from_id exp_from_id)
  have sle: "scaledValue v \<le> scaledValue (fromMantAndExp n' e')"
    unfolding s using le by (simp add: scaledValue_eq)
  have "mant (fromMantAndExp n' e') \<noteq> 0" using n(1) n56 by (simp add: mant_from_id)
  then have cmp: "0 \<le> Cmp (fromMantAndExp n' e') v"
    using assms(1) sle by (rule Cmp_ge)
  have "isCeilAt prec v (fromMantAndExp n' e')"
    unfolding isCeilAt_def unitAt_eq s using le lt dv by (simp add: scaledValue_eq)
  with c cmp show ?thesis by simp
qed

lemma adjustLoop2_zero: "m = 0 \<Longrightarrow> fst (adjustLoop2 m e) = 0"
proof (induction m e rule: adjustLoop2.induct)
  case (1 m e)
  show ?case
  proof (cases "e > maxExponent \<and> u64 (m * 10) < maxMantissa")
    case True
    have "u64 (m * 10) = 0" using "1.prems" by (simp add: u64_def)
    from "1.IH" [OF True this] show ?thesis using True by (subst adjustLoop2.simps) simp
  next
    case False
    have "adjustLoop2 m e = (m, e)" by (subst adjustLoop2.simps) (simp only: False if_False)
    then show ?thesis using "1.prems" by simp
  qed
qed

lemma adjustMantExp_zero: "adjustMantExp 0 e = zero"
proof -
  have l1: "adjustLoop1 0 e = (0, e)" by (subst adjustLoop1.simps) simp
  obtain m' e' where l2: "adjustLoop2 0 e = (m', e')" by (cases "adjustLoop2 0 e")
  have "m' = 0" using adjustLoop2_zero [of 0 e] l2 by simp
  then show ?thesis by (simp add: adjustMantExp_def l1 l2)
qed

lemma Max_split: "mant MaxValue = maxMantissa" "exp MaxValue = 128"
  by (simp_all add: MaxValue_def mant_from exp_from consts_simps)

lemma scaledValue_le_Max: "scaledValue v \<le> scaledValue MaxValue"
proof -
  have "nat (exp v + 127) \<le> 255" using exp_range [of v] by linarith
  then have "(10::nat) ^ nat (exp v + 127) \<le> 10 ^ 255"
    by (intro power_increasing) simp_all
  then have "mant v * 10 ^ nat (exp v + 127) \<le> maxMantissa * 10 ^ 255"
    using mant_le [of v] by (rule mult_le_mono [rotated])
  then show ?thesis by (simp add: scaledValue_eq Max_split)
qed

lemma adjustLoop2_high:
  "0 < n \<Longrightarrow> n < 2 ^ 56 \<Longrightarrow> 2 ^ 56 \<le> n * 10 ^ j \<Longrightarrow>
     \<exists>n' e'. adjustLoop2 n (128 + int j) = (n', e') \<and> 0 < n' \<and> 128 < e'"
proof (induction j arbitrary: n)
  case 0
  then show ?case by simp
next
  case (Suc j)
  show ?case
  proof (cases "n * 10 < 2 ^ 56")
    case True
    then have "n * 10 < 72057594037927936" by simp
    then have small: "n * 10 < 72057594037927935" by presburger
    then have nowrap: "u64 (n * 10) = n * 10" by (simp add: u64_def)
    have step: "adjustLoop2 n (128 + int (Suc j)) = adjustLoop2 (n * 10) (128 + int j)"
      using small by (subst adjustLoop2.simps) (simp add: consts_simps nowrap)
    have "2 ^ 56 \<le> n * 10 * 10 ^ j" using Suc.prems(3) by (simp add: mult.assoc)
    from Suc.IH [OF _ True this] Suc.prems(1)
    obtain n' e' where "adjustLoop2 (n * 10) (128 + int j) = (n', e')" "0 < n'" "128 < e'"
      by auto
    then have "adjustLoop2 n (128 + int (Suc j)) = (n', e') \<and> 0 < n' \<and> 128 < e'"
      by (simp only: step simp_thms)
    then show ?thesis by blast
  next
    case False
    have "n * 10 < 2 ^ 64" using Suc.prems(2) by simp
    then have nowrap: "u64 (n * 10) = n * 10" by (simp add: u64_def)
    have "adjustLoop2 n (128 + int (Suc j)) = (n, 128 + int (Suc j))"
      using False by (subst adjustLoop2.simps) (simp add: consts_simps nowrap)
    then show ?thesis using Suc.prems(1) by simp
  qed
qed

lemma adjustMantExp_high:
  assumes "0 < n" "n < 2 ^ 56"
  shows "(n * 10 ^ j < 2 ^ 56 \<and> adjustMantExp n (128 + int j) = fromMantAndExp (n * 10 ^ j) 128) \<or>
         adjustMantExp n (128 + int j) = MaxValue"
proof (cases "n * 10 ^ j < 2 ^ 56")
  case True
  with adjustMantExp_scale [OF assms(1) True] show ?thesis by simp
next
  case False
  then have "2 ^ 56 \<le> n * 10 ^ j" by simp
  from adjustLoop2_high [OF assms this]
  obtain n' e' where l2: "adjustLoop2 n (128 + int j) = (n', e')" "0 < n'" "128 < e'" by auto
  have l1: "adjustLoop1 n (128 + int j) = (n, 128 + int j)"
    using assms by (subst adjustLoop1.simps) (simp add: consts_simps)
  show ?thesis using l2 by (simp add: adjustMantExp_def l1 consts_simps)
qed


lemma ceil_cut:
  fixes n k :: nat
  assumes "10 ^ k \<le> n"
  shows "0 < n div 10 ^ k"
    and "n mod 10 ^ k \<noteq> 0 \<Longrightarrow> n div 10 ^ k + 1 \<le> n \<and> n + 1 \<le> (n div 10 ^ k + 1) * 10 ^ k \<and>
           (n div 10 ^ k + 1) * 10 ^ k < n + 10 ^ k"
    and "n mod 10 ^ k = 0 \<Longrightarrow> n div 10 ^ k * 10 ^ k = n"
proof -
  have dec: "n = (n div 10 ^ k) * 10 ^ k + n mod 10 ^ k" by (rule div_mult_mod_eq [symmetric])
  have modlt: "n mod 10 ^ k < 10 ^ k" by simp
  show pos: "0 < n div 10 ^ k" using assms by (simp add: div_greater_zero_iff)
  show "n mod 10 ^ k = 0 \<Longrightarrow> n div 10 ^ k * 10 ^ k = n" using dec by simp
  assume r: "n mod 10 ^ k \<noteq> 0"
  have e1: "(n div 10 ^ k + 1) * 10 ^ k = (n div 10 ^ k) * 10 ^ k + 10 ^ k"
    by (simp only: add_mult_distrib mult_1)
  have k0: "k \<noteq> 0" using r by (cases k) simp_all
  then have "(10::nat) ^ 1 \<le> 10 ^ k" by (intro power_increasing) simp_all
  then have "n div 10 ^ k \<le> n div 10" using div_le_mono2 [of "10" "10 ^ k" n] by simp
  also have "\<dots> < n" using assms by (cases n) simp_all
  finally have a: "n div 10 ^ k + 1 \<le> n" by simp
  have b: "n + 1 \<le> (n div 10 ^ k + 1) * 10 ^ k" using dec modlt e1 by linarith
  have c: "(n div 10 ^ k + 1) * 10 ^ k < n + 10 ^ k" using dec r e1 by linarith
  from a b c show "n div 10 ^ k + 1 \<le> n \<and> n + 1 \<le> (n div 10 ^ k + 1) * 10 ^ k \<and>
           (n div 10 ^ k + 1) * 10 ^ k < n + 10 ^ k" by simp
qed

lemma round_ceil_below_unit:
  assumes m0: "0 < m" and m56: "m < 2 ^ 56" and er: "- 127 \<le> e" "e \<le> 128"
    and pr: "prec < 0" "- (2 ^ 63) < prec"
    and small: "decimalDigits m + e \<le> - prec"
  shows "\<exists>e'. round m e prec modeCeil = Inr (0, e')"
proof -
  define dd where "dd = decimalDigits m"
  define c where "c = - prec"
  have m17: "m < 10 ^ 17" using m56 by simp
  have m64: "m < 2 ^ 64" using m56 by simp
  have dd: "1 \<le> dd" "dd \<le> 17"
    using decimalDigits_le [OF m17] decimalDigits_pos [of m] m56 by (simp_all add: dd_def)
  have mdd: "m < 10 ^ nat dd" unfolding dd_def using m64 by (rule decimalDigits_upper)
  have c: "0 < c" "i64 (- prec) = c" using pr by (simp_all add: c_def i64_small)
  have sm: "dd + e \<le> c" using small by (simp add: dd_def c_def)
  show ?thesis
  proof (cases "e < 0")
    case neg: True
    show ?thesis
    proof (cases "dd + e \<le> 0")
      case True
      then show ?thesis using pr neg by (simp add: round_def Let_def dd_def)
    next
      case False
      define a where "a = nat (- e)"
      define k where "k = nat (dd + e)"
      have a: "- e = int a" "nat dd = a + k" "dd + e = int k" "0 < k" "k \<le> 17"
        using neg False dd by (simp_all add: a_def k_def)
      have "a \<le> 19" using a(2) dd by simp
      then have pa: "pow10 (- e) = 10 ^ a" unfolding a(1) by (simp add: pow10_eq)
      have pk: "pow10 (dd + e) = 10 ^ k" unfolding a(3) using a(5) by (simp add: pow10_eq)
      have "m < 10 ^ k * 10 ^ a" using mdd by (simp add: a(2) power_add mult.commute)
      then have "m div 10 ^ a < 10 ^ k" by (rule less_mult_imp_div_less)
      then have d0: "m div 10 ^ a div 10 ^ k = 0" by simp
      have cut: "(if c > dd + e then dd + e else c) = dd + e" using sm by simp
      have "round m e prec modeCeil = roundCut (m div 10 ^ a) e 0 (dd + e) c prec modeCeil"
        using pr neg False by (simp add: round_def Let_def dd_def c pa)
      also have "\<exists>e'. \<dots> = Inr (0, e')"
        using c(1) pr(1) by (simp add: roundCut_def Let_def cut pk d0)
      finally show ?thesis .
    qed
  next
    case False
    define k where "k = nat dd"
    have k: "dd = int k" "0 < k" "k \<le> 17" using dd by (simp_all add: k_def)
    have pk: "pow10 dd = 10 ^ k" unfolding k(1) using k(3) by (simp add: pow10_eq)
    have d0: "m div 10 ^ k = 0" using mdd by (simp add: k_def)
    have cut: "(if c > dd then dd else c) = dd" using sm False by simp
    have "round m e prec modeCeil = roundCut m e e dd c prec modeCeil"
      using pr False by (simp add: round_def Let_def dd_def c)
    also have "\<exists>e'. \<dots> = Inr (0, e')"
      using c(1) pr(1) by (simp add: roundCut_def Let_def cut pk d0)
    finally show ?thesis .
  qed
qed


lemma round_ceil_neg_int:
  assumes m0: "0 < m" and m56: "m < 2 ^ 56" and er: "0 \<le> e" "e \<le> 128"
    and pr: "prec < 0" "- (2 ^ 63) < prec"
    and keep: "- prec < decimalDigits m"
  shows "\<exists>n'. round m e prec modeCeil = Inr (n', e - prec) \<and> 0 < n' \<and> n' \<le> m \<and> - prec \<le> 16 \<and>
           m * 10 ^ nat (e + 127) \<le> n' * 10 ^ nat (e - prec + 127) \<and>
           n' * 10 ^ nat (e - prec + 127) < m * 10 ^ nat (e + 127) + 10 ^ nat (e - prec + 127)"
proof -
  define dd where "dd = decimalDigits m"
  define c where "c = - prec"
  define k where "k = nat c"
  define W :: nat where "W = 10 ^ nat (e + 127)"
  have W0: "0 < W" by (simp add: W_def)
  have m17: "m < 10 ^ 17" using m56 by simp
  have m64: "m < 2 ^ 64" using m56 by simp
  have dd: "1 \<le> dd" "dd \<le> 17"
    using decimalDigits_le [OF m17] decimalDigits_pos [of m] m56 by (simp_all add: dd_def)
  have low: "10 ^ nat (dd - 1) \<le> m"
    using decimalDigits_bounds [OF m0 m64] by (simp add: dd_def)
  have c: "0 < c" "i64 (- prec) = c" "c < dd" "c = int k" "c \<le> 16"
    using pr keep dd by (simp_all add: c_def i64_small dd_def k_def)
  have k: "1 \<le> k" "k \<le> 16" "k \<le> nat (dd - 1)" using c(1,3,5) by (simp_all add: k_def)
  have pk: "pow10 c = 10 ^ k" unfolding c(4) using k(2) by (simp add: pow10_eq)
  have "(10::nat) ^ k \<le> 10 ^ nat (dd - 1)" using k(3) by (intro power_increasing) simp_all
  then have big: "10 ^ k \<le> m" using low by (rule le_trans)
  note cc = ceil_cut [OF big]
  have p16: "- prec \<le> 16" using c(5) by (simp add: c_def)
  have ec: "i64 (e + c) = e + c" "i32 (e + c) = e + c"
    using er c by (simp_all add: i64_small i32_small)
  have Wk: "10 ^ nat (e - prec + 127) = 10 ^ k * W"
  proof -
    have "nat (e - prec + 127) = k + nat (e + 127)" using er c by (simp add: c_def k_def)
    then show ?thesis by (simp add: W_def power_add)
  qed
  have cut: "(if c > dd then dd else c) = c" using c(3) by simp
  have r: "round m e prec modeCeil = roundCut m e e dd c prec modeCeil"
    using pr er by (simp add: round_def Let_def dd_def c)
  have rc: "roundCut m e e dd c prec modeCeil =
       (if m mod 10 ^ k \<noteq> 0 then Inr (u64 (m div 10 ^ k + 1), e - prec)
        else Inr (m div 10 ^ k, e - prec))"
    using c(1) cc(1) by (simp add: roundCut_def Let_def cut pk ec) (simp add: c_def)
  show ?thesis
  proof (cases "m mod 10 ^ k = 0")
    case True
    have eq: "m div 10 ^ k * 10 ^ k = m" using True by (rule cc(3))
    have eqW: "m div 10 ^ k * (10 ^ k * W) = m * W" by (simp only: mult.assoc [symmetric] eq)
    have res: "round m e prec modeCeil = Inr (m div 10 ^ k, e - prec)" using True by (simp add: r rc)
    have le: "m div 10 ^ k \<le> m" by simp
    have ge: "m * 10 ^ nat (e + 127) \<le> m div 10 ^ k * 10 ^ nat (e - prec + 127)"
      unfolding Wk W_def [symmetric] by (simp only: eqW le_refl)
    have lt: "m div 10 ^ k * 10 ^ nat (e - prec + 127) < m * 10 ^ nat (e + 127) + 10 ^ nat (e - prec + 127)"
      unfolding Wk W_def [symmetric] by (simp only: eqW) (simp add: W0)
    show ?thesis
      by (rule exI [of _ "m div 10 ^ k"]) (intro conjI res cc(1) le p16 ge lt)
  next
    case False
    from cc(2) [OF False]
    have q: "m div 10 ^ k + 1 \<le> m" "m + 1 \<le> (m div 10 ^ k + 1) * 10 ^ k"
      "(m div 10 ^ k + 1) * 10 ^ k < m + 10 ^ k" by simp_all
    have nowrap: "u64 (m div 10 ^ k + 1) = m div 10 ^ k + 1" using q(1) m64 by (simp add: u64_def)
    have res: "round m e prec modeCeil = Inr (m div 10 ^ k + 1, e - prec)"
      using False by (simp only: r rc nowrap if_True simp_thms)
    have pos: "0 < m div 10 ^ k + 1" by simp
    have "m \<le> (m div 10 ^ k + 1) * 10 ^ k" using q(2) by simp
    then have "m * W \<le> (m div 10 ^ k + 1) * 10 ^ k * W" by (rule mult_le_mono1)
    then have ge: "m * 10 ^ nat (e + 127) \<le> (m div 10 ^ k + 1) * 10 ^ nat (e - prec + 127)"
      unfolding Wk W_def [symmetric] by (simp only: mult.assoc)
    have "(m div 10 ^ k + 1) * 10 ^ k * W < (m + 10 ^ k) * W"
      using q(3) W0 by (simp only: mult_less_cancel2)
    then have lt: "(m div 10 ^ k + 1) * 10 ^ nat (e - prec + 127) <
        m * 10 ^ nat (e + 127) + 10 ^ nat (e - prec + 127)"
      unfolding Wk W_def [symmetric] by (simp only: mult.assoc add_mult_distrib)
    show ?thesis
      by (rule exI [of _ "m div 10 ^ k + 1"]) (intro conjI res pos q(1) p16 ge lt)
  qed
qed


lemma round_ceil_neg_frac:
  assumes m0: "0 < m" and m56: "m < 2 ^ 56" and er: "- 127 \<le> e" "e < 0"
    and pr: "prec < 0" "- (2 ^ 63) < prec"
    and keep: "- prec < decimalDigits m + e"
    and ns: "m mod 10 ^ nat (- e) = 0 \<or> (m div 10 ^ nat (- e)) mod 10 ^ nat (- prec) \<noteq> 0"
  shows "\<exists>n'. round m e prec modeCeil = Inr (n', - prec) \<and> 0 < n' \<and> n' \<le> m \<and> - prec \<le> 16 \<and>
           m * 10 ^ nat (e + 127) \<le> n' * 10 ^ nat (127 - prec) \<and>
           n' * 10 ^ nat (127 - prec) < m * 10 ^ nat (e + 127) + 10 ^ nat (127 - prec)"
proof -
  define dd where "dd = decimalDigits m"
  define c where "c = - prec"
  define k where "k = nat c"
  define a where "a = nat (- e)"
  define W :: nat where "W = 10 ^ nat (e + 127)"
  define F :: nat where "F = 10 ^ a"
  define n where "n = m div F"
  have W0: "0 < W" and F0: "0 < F" by (simp_all add: W_def F_def)
  have m17: "m < 10 ^ 17" using m56 by simp
  have m64: "m < 2 ^ 64" using m56 by simp
  have dd: "1 \<le> dd" "dd \<le> 17"
    using decimalDigits_le [OF m17] decimalDigits_pos [of m] m56 by (simp_all add: dd_def)
  have low: "10 ^ nat (dd - 1) \<le> m"
    using decimalDigits_bounds [OF m0 m64] by (simp add: dd_def)
  have c: "0 < c" "i64 (- prec) = c" "c < dd + e" "c = int k" "c \<le> 16"
    using pr keep dd er by (simp_all add: c_def i64_small dd_def k_def)
  have p16: "- prec \<le> 16" using c(5) by (simp add: c_def)
  have a: "- e = int a" "1 \<le> a" "a \<le> 16" "a + k \<le> nat (dd - 1)"
    using er c(1,3) dd by (simp_all add: a_def k_def)
  have pa: "pow10 (- e) = F" unfolding a(1) F_def using a(3) by (simp add: pow10_eq)
  have pk: "pow10 c = 10 ^ k" unfolding c(4) using c(1,5) by (simp add: pow10_eq k_def)
  have big: "10 ^ k \<le> n"
  proof -
    have "(10::nat) ^ (k + a) \<le> 10 ^ nat (dd - 1)"
      using a(4) by (intro power_increasing) (simp_all add: add.commute)
    then have "10 ^ k * F \<le> m" using low by (simp add: power_add F_def)
    then have "(10 ^ k * F) div F \<le> m div F" by (rule div_le_mono)
    then show ?thesis using F0 by (simp add: n_def)
  qed
  note cc = ceil_cut [OF big]
  have mdec: "m = n * F + m mod F" unfolding n_def by (rule div_mult_mod_eq [symmetric])
  have modlt: "m mod F < F" using F0 by simp
  have nle: "n \<le> m" by (simp add: n_def)
  have UW: "10 ^ nat (127 - prec) = 10 ^ k * (F * W)"
  proof -
    have "nat (127 - prec) = k + (a + nat (e + 127))" using er c(1) by (simp add: c_def k_def a_def)
    then show ?thesis by (simp add: W_def F_def power_add)
  qed
  have cut: "(if c > dd + e then dd + e else c) = c" using c(3) by simp
  have ec: "i32 (i64 c) = - prec" using c(1,5) by (simp add: i64_small i32_small) (simp add: c_def)
  have r: "round m e prec modeCeil = roundCut n e 0 (dd + e) c prec modeCeil"
    using pr er c(1,3) F0 by (simp add: round_def Let_def dd_def [symmetric] c(2) pa n_def)
  have rc: "roundCut n e 0 (dd + e) c prec modeCeil =
       (if n mod 10 ^ k \<noteq> 0 then Inr (u64 (n div 10 ^ k + 1), - prec)
        else Inr (n div 10 ^ k, - prec))"
    using c(1) cc(1) by (simp add: roundCut_def Let_def cut pk ec)
  show ?thesis
  proof (cases "n mod 10 ^ k = 0")
    case True
    have "m mod F = 0" using ns True by (simp add: n_def F_def a_def k_def c_def)
    then have mn: "m = n * F" using mdec by simp
    have eq: "n div 10 ^ k * 10 ^ k = n" using True by (rule cc(3))
    have eqW: "n div 10 ^ k * (10 ^ k * (F * W)) = m * W"
      by (simp only: mult.assoc [symmetric] eq mn [symmetric])
    have res: "round m e prec modeCeil = Inr (n div 10 ^ k, - prec)" using True by (simp add: r rc)
    have le: "n div 10 ^ k \<le> m" using nle by (rule le_trans [rotated]) simp
    have ge: "m * 10 ^ nat (e + 127) \<le> n div 10 ^ k * 10 ^ nat (127 - prec)"
      unfolding UW W_def [symmetric] by (simp only: eqW le_refl)
    have lt: "n div 10 ^ k * 10 ^ nat (127 - prec) < m * 10 ^ nat (e + 127) + 10 ^ nat (127 - prec)"
      unfolding UW W_def [symmetric] by (simp only: eqW) (simp add: W0 F0)
    show ?thesis
      by (rule exI [of _ "n div 10 ^ k"]) (intro conjI res cc(1) le p16 ge lt)
  next
    case False
    from cc(2) [OF False]
    have q: "n div 10 ^ k + 1 \<le> n" "n + 1 \<le> (n div 10 ^ k + 1) * 10 ^ k"
      "(n div 10 ^ k + 1) * 10 ^ k < n + 10 ^ k" by simp_all
    have qm: "n div 10 ^ k + 1 \<le> m" using q(1) nle by (rule le_trans)
    have nowrap: "u64 (n div 10 ^ k + 1) = n div 10 ^ k + 1" using qm m64 by (simp add: u64_def)
    have res: "round m e prec modeCeil = Inr (n div 10 ^ k + 1, - prec)"
      using False by (simp only: r rc nowrap if_True simp_thms)
    have pos: "0 < n div 10 ^ k + 1" by simp
    have "m < (n + 1) * F" using mdec modlt by (simp add: add_mult_distrib)
    also have "\<dots> \<le> (n div 10 ^ k + 1) * 10 ^ k * F" using q(2) by (rule mult_le_mono1)
    finally have "m \<le> (n div 10 ^ k + 1) * 10 ^ k * F" by simp
    then have "m * W \<le> (n div 10 ^ k + 1) * 10 ^ k * F * W" by (rule mult_le_mono1)
    then have ge: "m * 10 ^ nat (e + 127) \<le> (n div 10 ^ k + 1) * 10 ^ nat (127 - prec)"
      unfolding UW W_def [symmetric] by (simp only: mult.assoc)
    have "(n div 10 ^ k + 1) * 10 ^ k * F < (n + 10 ^ k) * F"
      using q(3) F0 by (simp only: mult_less_cancel2)
    also have "\<dots> = n * F + 10 ^ k * F" by (simp only: add_mult_distrib)
    also have "\<dots> \<le> m + 10 ^ k * F" using mdec by simp
    finally have "(n div 10 ^ k + 1) * 10 ^ k * F * W < (m + 10 ^ k * F) * W"
      using W0 by (simp only: mult_less_cancel2)
    then have lt: "(n div 10 ^ k + 1) * 10 ^ nat (127 - prec) <
        m * 10 ^ nat (e + 127) + 10 ^ nat (127 - prec)"
      unfolding UW W_def [symmetric] by (simp only: mult.assoc add_mult_distrib)
    show ?thesis
      by (rule exI [of _ "n div 10 ^ k + 1"]) (intro conjI res pos qm p16 ge lt)
  qed
qed


lemma Ceil_below_unit:
  assumes "mant v \<noteq> 0" "prec < 0" "- (2 ^ 63) < prec"
    and "decimalDigits (mant v) + exp v \<le> - prec"
  shows "Ceil v prec = Inr zero"
proof -
  have m0: "0 < mant v" using assms(1) by simp
  from round_ceil_below_unit [OF m0 mant_lt _ _ assms(2,3,4)] exp_range [of v]
  obtain e' where "round (mant v) (exp v) prec modeCeil = Inr (0, e')" by auto
  then show ?thesis by (simp add: Ceil_def roundValue_def split_def adjustMantExp_zero)
qed

lemma Ceil_neg_up:
  assumes v0: "mant v \<noteq> 0" and pr: "prec < 0" "- (2 ^ 63) < prec"
    and keep: "- prec < decimalDigits (mant v) + min 0 (exp v)"
    and ns: "exp v < 0 \<longrightarrow> mant v mod 10 ^ nat (- exp v) = 0 \<or>
               mant v div 10 ^ nat (- exp v) mod 10 ^ nat (- prec) \<noteq> 0"
  shows "\<exists>r. Ceil v prec = Inr r \<and> 0 \<le> Cmp r v \<and> (exp v \<le> 0 \<longrightarrow> isCeilAt prec v r)"
proof -
  have m0: "0 < mant v" using v0 by simp
  note er = exp_range [of v]
  show ?thesis
  proof (cases "exp v < 0")
    case True
    have keep': "- prec < decimalDigits (mant v) + exp v" using keep True by simp
    have ns': "mant v mod 10 ^ nat (- exp v) = 0 \<or>
               mant v div 10 ^ nat (- exp v) mod 10 ^ nat (- prec) \<noteq> 0" using ns True by simp
    from round_ceil_neg_frac [OF m0 mant_lt _ True pr keep' ns'] er
    obtain n' where r: "round (mant v) (exp v) prec modeCeil = Inr (n', - prec)"
      and n: "0 < n'" "n' \<le> mant v" and p16: "- prec \<le> 16"
      and le: "mant v * 10 ^ nat (exp v + 127) \<le> n' * 10 ^ nat (127 - prec)"
      and lt: "n' * 10 ^ nat (127 - prec) < mant v * 10 ^ nat (exp v + 127) + 10 ^ nat (127 - prec)"
      by auto
    have nmax: "n' \<le> maxMantissa" using n(2) mant_le [of v] by simp
    have n56: "n' < 2 ^ 56" using n(2) mant_lt [of v] by simp
    have e: "- 127 \<le> - prec" "- prec \<le> 128" using pr p16 by simp_all
    have c: "Ceil v prec = Inr (fromMantAndExp n' (- prec))"
      by (simp add: Ceil_def roundValue_def split_def r adjustMantExp_id [OF n(1) nmax e])
    have s: "scaledValue (fromMantAndExp n' (- prec)) = n' * 10 ^ nat (127 - prec)"
      using e n56 by (simp add: scaledValue_eq mant_from_id exp_from_id)
    have sle: "scaledValue v \<le> scaledValue (fromMantAndExp n' (- prec))"
      unfolding s using le by (simp add: scaledValue_eq)
    have "mant (fromMantAndExp n' (- prec)) \<noteq> 0" using n(1) n56 by (simp add: mant_from_id)
    then have cmp: "0 \<le> Cmp (fromMantAndExp n' (- prec)) v" using v0 sle by (rule Cmp_ge)
    have "isCeilAt prec v (fromMantAndExp n' (- prec))"
      unfolding isCeilAt_def unitAt_eq s using le lt by (simp add: scaledValue_eq)
    with c cmp show ?thesis by simp
  next
    case False
    then have e0: "0 \<le> exp v" by simp
    have keep': "- prec < decimalDigits (mant v)" using keep e0 by simp
    from round_ceil_neg_int [OF m0 mant_lt e0 _ pr keep'] er
    obtain n' where r: "round (mant v) (exp v) prec modeCeil = Inr (n', exp v - prec)"
      and n: "0 < n'" "n' \<le> mant v" and p16: "- prec \<le> 16"
      and le: "mant v * 10 ^ nat (exp v + 127) \<le> n' * 10 ^ nat (exp v - prec + 127)"
      and lt: "n' * 10 ^ nat (exp v - prec + 127) <
                 mant v * 10 ^ nat (exp v + 127) + 10 ^ nat (exp v - prec + 127)"
      by auto
    have nmax: "n' \<le> maxMantissa" using n(2) mant_le [of v] by simp
    have n56: "n' < 2 ^ 56" using n(2) mant_lt [of v] by simp
    have c: "Ceil v prec = Inr (adjustMantExp n' (exp v - prec))"
      by (simp add: Ceil_def roundValue_def split_def r)
    show ?thesis
    proof (cases "exp v - prec \<le> 128")
      case True
      have e: "- 127 \<le> exp v - prec" using e0 pr by simp
      have a: "adjustMantExp n' (exp v - prec) = fromMantAndExp n' (exp v - prec)"
        using n(1) nmax e True by (rule adjustMantExp_id)
      have s: "scaledValue (fromMantAndExp n' (exp v - prec)) = n' * 10 ^ nat (exp v - prec + 127)"
        using e True n56 by (simp add: scaledValue_eq mant_from_id exp_from_id)
      have sle: "scaledValue v \<le> scaledValue (fromMantAndExp n' (exp v - prec))"
        unfolding s using le by (simp add: scaledValue_eq)
      have "mant (fromMantAndExp n' (exp v - prec)) \<noteq> 0" using n(1) n56 by (simp add: mant_from_id)
      then have cmp: "0 \<le> Cmp (fromMantAndExp n' (exp v - prec)) v" using v0 sle by (rule Cmp_ge)
      have "isCeilAt prec v (fromMantAndExp n' (exp v - prec))" if "exp v \<le> 0"
      proof -
        have z: "exp v = 0" using that e0 by simp
        show ?thesis
          unfolding isCeilAt_def unitAt_eq s using le lt by (simp add: scaledValue_eq z)
      qed
      with c a cmp show ?thesis by simp
    next
      case False
      define j where "j = nat (exp v - prec - 128)"
      have j: "exp v - prec = 128 + int j" using False by (simp add: j_def)
      have pos: "\<not> exp v \<le> 0" using False p16 by simp
      from adjustMantExp_high [OF n(1) n56, of j]
      show ?thesis
      proof
        assume h: "n' * 10 ^ j < 2 ^ 56 \<and>
          adjustMantExp n' (128 + int j) = fromMantAndExp (n' * 10 ^ j) 128"
        have s: "scaledValue (fromMantAndExp (n' * 10 ^ j) 128) = n' * 10 ^ nat (exp v - prec + 127)"
          using h by (simp add: scaledValue_eq mant_from_id exp_from_id j power_add nat_add_distrib)
        have sle: "scaledValue v \<le> scaledValue (fromMantAndExp (n' * 10 ^ j) 128)"
          unfolding s using le by (simp add: scaledValue_eq)
        have "mant (fromMantAndExp (n' * 10 ^ j) 128) \<noteq> 0"
          using n(1) h by (simp add: mant_from_id)
        then have "0 \<le> Cmp (fromMantAndExp (n' * 10 ^ j) 128) v" using v0 sle by (rule Cmp_ge)
        then show ?thesis using c h pos by (simp add: j)
      next
        assume h: "adjustMantExp n' (128 + int j) = MaxValue"
        have "mant MaxValue \<noteq> 0" by (simp add: Max_split consts_simps)
        then have "0 \<le> Cmp MaxValue v" using v0 scaledValue_le_Max by (rule Cmp_ge)
        then show ?thesis using c h pos by (simp add: j)
      qed
    qed
  qed
qed

lemma Ceil_ok: "\<exists>r. Ceil v prec = Inr r"
proof -
  have "mant v < 10 ^ 19" using mant_lt [of v] by simp
  from round_ok [OF this, of "exp v" prec modeCeil]
  obtain r where "round (mant v) (exp v) prec modeCeil = Inr r" by auto
  then show ?thesis by (cases r) (simp add: Ceil_def roundValue_def split_def)
qed

text \<open>
  C6, as stated: \<^verbatim>\<open>v.Ceil(p)\<close> compares greater than or equal to \<open>v\<close> for every
  precision, negative ones included.  For \<open>123.456\<close> and the precision \<open>-3\<close> the
  result is zero, which compares below \<open>123.456\<close>.
\<close>

theorem C6_counterexample:
  "Ceil (fromMantAndExp 123456 (- 3)) (- 3) = Inr zero \<and>
   Cmp zero (fromMantAndExp 123456 (- 3)) = - 1"
  by (simp add: eval_simps Ceil_def roundValue_def round_def roundCut_def Cmp_def uint64Cmp_def)

text \<open>
  C6, amended.  Let \<open>v\<close> have a nonzero mantissa \<open>m\<close> and the exponent \<open>e\<close>, and let
  \<open>p\<close> be a precision with \<open>- 2 ^ 63 < p \<le> 2 ^ 63 - 129\<close> (so that \<^verbatim>\<open>-ei - prec\<close> and
  \<^verbatim>\<open>-prec\<close> stay within Go's 64-bit \<^verbatim>\<open>int\<close>).

  \<^item> For \<open>p \<ge> 0\<close>, \<^verbatim>\<open>v.Ceil(p)\<close> is the least multiple of \<open>10 ^ (- p)\<close> that is not below
    \<open>v\<close>: it compares greater than or equal to \<open>v\<close>, it is incremented whenever a
    nonzero remainder is discarded, and it is the unit \<open>10 ^ (- p)\<close> itself when \<open>v\<close>
    lies below that unit.
  \<^item> For \<open>p < 0\<close> and \<open>v\<close> below the unit \<open>10 ^ (- p)\<close> (the digits of \<open>m\<close> end below
    the target position: \<open>decimalDigits m + e \<le> - p\<close>) the result is zero: no unit
    is materialized at a negative precision.
  \<^item> For \<open>p < 0\<close>, when a digit of the mantissa remains after the cut
    (\<open>- p < decimalDigits m + min 0 e\<close>), the result compares greater than or equal
    to \<open>v\<close>, and for \<open>e \<le> 0\<close> it is again the least multiple of \<open>10 ^ (- p)\<close> not
    below \<open>v\<close>.  One case is left aside here: \<open>e < 0\<close> with a nonzero fraction and
    an integer part that is already a multiple of \<open>10 ^ (- p)\<close>.
\<close>

theorem C6_Ceil_rounds_up:
  assumes "mant v \<noteq> 0" and "- (2 ^ 63) < prec" and "prec \<le> 2 ^ 63 - 129"
  shows "\<exists>r. Ceil v prec = Inr r \<and>
     (0 \<le> prec \<longrightarrow> 0 \<le> Cmp r v \<and> isCeilAt prec v r) \<and>
     (prec < 0 \<and> decimalDigits (mant v) + exp v \<le> - prec \<longrightarrow> r = zero) \<and>
     (prec < 0 \<and> - prec < decimalDigits (mant v) + min 0 (exp v) \<and>
        (exp v < 0 \<longrightarrow> mant v mod 10 ^ nat (- exp v) = 0 \<or>
           mant v div 10 ^ nat (- exp v) mod 10 ^ nat (- prec) \<noteq> 0) \<longrightarrow>
      0 \<le> Cmp r v \<and> (exp v \<le> 0 \<longrightarrow> isCeilAt prec v r))"
proof (cases "0 \<le> prec")
  case True
  from Ceil_nonneg [OF assms(1) True assms(3)] True show ?thesis by auto
next
  case neg: False
  then have pr: "prec < 0" by simp
  show ?thesis
  proof (cases "decimalDigits (mant v) + exp v \<le> - prec")
    case True
    then have "\<not> - prec < decimalDigits (mant v) + min 0 (exp v)" by simp
    with Ceil_below_unit [OF assms(1) pr assms(2) True] pr show ?thesis by simp
  next
    case big: False
    show ?thesis
    proof (cases "- prec < decimalDigits (mant v) + min 0 (exp v) \<and>
        (exp v < 0 \<longrightarrow> mant v mod 10 ^ nat (- exp v) = 0 \<or>
           mant v div 10 ^ nat (- exp v) mod 10 ^ nat (- prec) \<noteq> 0)")
      case True
      then have k: "- prec < decimalDigits (mant v) + min 0 (exp v)"
        and n: "exp v < 0 \<longrightarrow> mant v mod 10 ^ nat (- exp v) = 0 \<or>
           mant v div 10 ^ nat (- exp v) mod 10 ^ nat (- prec) \<noteq> 0" by simp_all
      from Ceil_neg_up [OF assms(1) pr assms(2) k n] pr big show ?thesis by auto
    next
      case False
      with Ceil_ok [of v prec] pr big show ?thesis by auto
    qed
  qed
qed

theorem C6_witness:
  "Ceil (fromMantAndExp 123456 (- 3)) 2 = Inr (fromMantAndExp 12346 (- 2)) \<and>
   0 \<le> Cmp (fromMantAndExp 12346 (- 2)) (fromMantAndExp 123456 (- 3)) \<and>
   isCeilAt 2 (fromMantAndExp 123456 (- 3)) (fromMantAndExp 12346 (- 2)) \<and>
   Ceil (fromMantAndExp 5 (- 1)) (- 1) = Inr zero \<and>
   Ceil (fromMantAndExp 123456 (- 3)) (- 1) = Inr (fromMantAndExp 13 1) \<and>
   0 \<le> Cmp (fromMantAndExp 13 1) (fromMantAndExp 123456 (- 3)) \<and>
   isCeilAt (- 1) (fromMantAndExp 123456 (- 3)) (fromMantAndExp 13 1)"
proof -
  have mv: "mant (fromMantAndExp 123456 (- 3)) = 123456" "exp (fromMantAndExp 123456 (- 3)) = - 3"
    "mant (fromMantAndExp 5 (- 1)) = 5" "exp (fromMantAndExp 5 (- 1)) = - 1"
    by (simp_all add: mant_from exp_from)
  have dv: "decimalDigits 123456 = 6" "decimalDigits 5 = 1"
    by (simp_all add: eval_simps)
  have c1: "Ceil (fromMantAndExp 123456 (- 3)) 2 = Inr (fromMantAndExp 12346 (- 2))"
    by (simp add: eval_simps Ceil_def roundValue_def round_def roundCut_def)
  have c3: "Ceil (fromMantAndExp 123456 (- 3)) (- 1) = Inr (fromMantAndExp 13 1)"
    by (simp add: eval_simps Ceil_def roundValue_def round_def roundCut_def)
  have w1: "0 \<le> Cmp (fromMantAndExp 12346 (- 2)) (fromMantAndExp 123456 (- 3)) \<and>
      isCeilAt 2 (fromMantAndExp 123456 (- 3)) (fromMantAndExp 12346 (- 2))"
    using C6_Ceil_rounds_up [of "fromMantAndExp 123456 (- 3)" 2] by (simp add: mv c1)
  have w2: "Ceil (fromMantAndExp 5 (- 1)) (- 1) = Inr zero"
    using C6_Ceil_rounds_up [of "fromMantAndExp 5 (- 1)" "- 1"] by (simp add: mv dv)
  have w3: "0 \<le> Cmp (fromMantAndExp 13 1) (fromMantAndExp 123456 (- 3)) \<and>
      isCeilAt (- 1) (fromMantAndExp 123456 (- 3)) (fromMantAndExp 13 1)"
    using C6_Ceil_rounds_up [of "fromMantAndExp 123456 (- 3)" "- 1"] by (simp add: mv dv c3)
  from c1 w1 w2 c3 w3 show ?thesis by simp
qed

text \<open>
  What the statement above leaves aside.  The fraction digits are removed
  before the remainder is taken, so \<open>120.5\<close> at the precision \<open>-1\<close> gives \<open>120\<close>; and
  for a positive exponent the cut is counted in digits of the mantissa, so
  \<open>5 * 10 ^ 3\<close> at the precision \<open>-1\<close> gives zero.
\<close>

lemma Ceil_drops_fraction:
  "Ceil (fromMantAndExp 1205 (- 1)) (- 1) = Inr (fromMantAndExp 12 1) \<and>
   Cmp (fromMantAndExp 12 1) (fromMantAndExp 1205 (- 1)) = - 1 \<and>
   Ceil (fromMantAndExp 5 3) (- 1) = Inr zero"
  by (simp add: eval_simps Ceil_def roundValue_def round_def roundCut_def Cmp_def uint64Cmp_def)

section \<open>Facts about decimal strings\<close>

lemma digitChar_value: "d < 10 \<Longrightarrow> (of_char (digitChar d) :: nat) - 48 = d"
proof -
  assume d: "d < 10"
  have "list_all (\<lambda>(k, c). (of_char c :: nat) - 48 = k) (zip [0..<10] ''0123456789'')"
    by (simp add: upt_conv_Cons)
  then have "\<forall>n < length (zip [0..<10] ''0123456789'').
      (\<lambda>(k, c). (of_char c :: nat) - 48 = k) (zip [0..<10] ''0123456789'' ! n)"
    by (simp only: list_all_length)
  then show ?thesis using d by (simp add: digitChar_def)
qed

lemma digitChar_zero_iff: "d < 10 \<Longrightarrow> digitChar d = CHR ''0'' \<longleftrightarrow> d = 0"
proof -
  assume d: "d < 10"
  have z: "digitChar 0 = CHR ''0''" by (simp add: digitChar_def)
  show ?thesis
  proof
    assume "digitChar d = CHR ''0''"
    then have "(of_char (digitChar d) :: nat) - 48 = 0" by simp
    then show "d = 0" using digitChar_value [OF d] by simp
  next
    assume "d = 0" then show "digitChar d = CHR ''0''" using z by simp
  qed
qed

lemma digitsValue_snoc: "digitsValue (s @ [c]) = digitsValue s * 10 + ((of_char c :: nat) - 48)"
  by (simp add: digitsValue_def)

lemma digitsValue_FormatUint: "digitsValue (FormatUint n) = n"
proof (induction n rule: FormatUint.induct)
  case (1 n)
  show ?case
  proof (cases "n < 10")
    case True
    then show ?thesis
      by (subst FormatUint.simps) (simp add: digitsValue_def digitChar_value)
  next
    case False
    then have "digitsValue (FormatUint (n div 10)) = n div 10" using 1 by simp
    then show ?thesis using False
      by (subst FormatUint.simps) (simp add: digitsValue_snoc digitChar_value)
  qed
qed

lemma last_FormatUint: "last (FormatUint n) = digitChar (n mod 10)"
  by (subst FormatUint.simps) simp

lemma hd_FormatUint: "0 < n \<Longrightarrow> hd (FormatUint n) \<noteq> CHR ''0''"
proof (induction n rule: FormatUint.induct)
  case (1 n)
  show ?case
  proof (cases "n < 10")
    case True
    then show ?thesis using "1.prems"
      by (subst FormatUint.simps) (simp add: digitChar_zero_iff)
  next
    case False
    then have "hd (FormatUint (n div 10)) \<noteq> CHR ''0''" using 1 by simp
    then show ?thesis using False
      by (subst FormatUint.simps) (simp add: FormatUint_nonempty)
  qed
qed

lemma length_FormatUint: "n < 10 ^ k \<Longrightarrow> 1 \<le> k \<Longrightarrow> length (FormatUint n) \<le> k"
proof (induction n arbitrary: k rule: FormatUint.induct)
  case (1 n)
  show ?case
  proof (cases "n < 10")
    case True
    then show ?thesis using "1.prems" by (subst FormatUint.simps) simp
  next
    case False
    then obtain k' where k': "k = Suc k'" using "1.prems" by (cases k) simp_all
    have "k' \<noteq> 0" using False "1.prems" k' by (cases k') simp_all
    moreover have "n div 10 < 10 ^ k'" using "1.prems"(1) k' by (simp add: less_mult_imp_div_less)
    ultimately have "length (FormatUint (n div 10)) \<le> k'" using "1.IH" [OF False, of k'] by simp
    then show ?thesis using False k' by (subst FormatUint.simps) simp
  qed
qed

lemma FormatUint_mant:
  assumes "0 < m" "m < 2 ^ 56"
  shows "length (FormatUint m) \<le> 17" "ParseUint (FormatUint m) = Some m"
proof -
  have "m < 10 ^ 17" using assms(2) by simp
  then show "length (FormatUint m) \<le> 17" by (rule length_FormatUint) simp
  show "ParseUint (FormatUint m) = Some m"
    using assms(2) by (simp add: ParseUint_def FormatUint_nonempty FormatUint_digits digitsValue_FormatUint)
qed


lemma digit_not_special: "isDigit c \<Longrightarrow> c \<noteq> CHR ''e'' \<and> c \<noteq> delim"
  by (auto simp add: isDigit_def delim_def)

lemma isDigit_zero: "isDigit CHR ''0''"
  by (simp add: isDigit_def)

lemma scan_digits_app:
  "list_all isDigit ds \<Longrightarrow> b \<noteq> [] \<Longrightarrow>
     scanDigits (ds @ rest) i b dp fnz = scanDigits rest (i + int (length ds)) (b @ ds) dp fnz"
proof (induction ds arbitrary: i b)
  case Nil
  then show ?case by simp
next
  case (Cons c ds)
  then have "scanDigits ((c # ds) @ rest) i b dp fnz = scanDigits (ds @ rest) (i + 1) (b @ [c]) dp fnz"
    by simp
  also have "\<dots> = scanDigits rest (i + 1 + int (length ds)) ((b @ [c]) @ ds) dp fnz"
    using Cons.prems by (intro Cons.IH) simp_all
  finally show ?case by (simp add: add.assoc)
qed

lemma scan_zeros:
  "scanDigits (replicate z CHR ''0'' @ rest) i [] dp fnz = scanDigits rest (i + int z) [] dp fnz"
proof (induction z arbitrary: i)
  case 0
  then show ?case by simp
next
  case (Suc z)
  have "scanDigits (replicate (Suc z) CHR ''0'' @ rest) i [] dp fnz =
        scanDigits (replicate z CHR ''0'' @ rest) (i + 1) [] dp fnz"
    by (simp add: isDigit_zero)
  then show ?case by (simp add: Suc.IH add.assoc)
qed

lemma scan_first:
  "isDigit c \<Longrightarrow> c \<noteq> CHR ''0'' \<Longrightarrow>
     scanDigits (c # rest) i [] dp fnz = scanDigits rest (i + 1) [c] dp i"
  by simp

lemma scan_delim:
  "scanDigits (delim # rest) i b (- 1) fnz = scanDigits rest (i + 1) b i fnz"
  by (simp add: isDigit_def delim_def)

lemma strip_id: "s = [] \<or> last s \<noteq> CHR ''0'' \<Longrightarrow> stripTrailingZeros s = s"
  by (subst stripTrailingZeros.simps) simp

lemma strip_snoc_zero: "stripTrailingZeros (t @ [CHR ''0'']) = stripTrailingZeros t"
  by (subst stripTrailingZeros.simps) simp

lemma strip_zeros: "stripTrailingZeros (s @ replicate z CHR ''0'') = stripTrailingZeros s"
proof (induction z)
  case 0
  then show ?case by simp
next
  case (Suc z)
  have "s @ replicate (Suc z) CHR ''0'' = (s @ replicate z CHR ''0'') @ [CHR ''0'']"
    by (simp add: replicate_append_same)
  then have "stripTrailingZeros (s @ replicate (Suc z) CHR ''0'') =
             stripTrailingZeros (s @ replicate z CHR ''0'')"
    by (simp only: strip_snoc_zero)
  then show ?case using Suc by simp
qed

lemma strip_spec:
  "\<exists>j. s = stripTrailingZeros s @ replicate j CHR ''0'' \<and>
       (stripTrailingZeros s = [] \<or> last (stripTrailingZeros s) \<noteq> CHR ''0'')"
proof (induction s rule: stripTrailingZeros.induct)
  case (1 s)
  show ?case
  proof (cases "s = [] \<or> last s \<noteq> CHR ''0''")
    case True
    then have "stripTrailingZeros s = s" by (rule strip_id)
    with True show ?thesis by (intro exI [of _ 0]) auto
  next
    case False
    then have st: "stripTrailingZeros s = stripTrailingZeros (butlast s)"
      by (subst stripTrailingZeros.simps) simp
    from "1.IH" [OF False] obtain j where
      j: "butlast s = stripTrailingZeros (butlast s) @ replicate j CHR ''0''"
         "stripTrailingZeros (butlast s) = [] \<or> last (stripTrailingZeros (butlast s)) \<noteq> CHR ''0''"
      by blast
    have "s = butlast s @ [CHR ''0'']" using False by (metis append_butlast_last_id)
    also have "\<dots> = (stripTrailingZeros (butlast s) @ replicate j CHR ''0'') @ [CHR ''0'']"
      using j(1) by (rule arg_cong [where f = "\<lambda>x. x @ [CHR ''0'']"])
    also have "\<dots> = stripTrailingZeros s @ replicate (Suc j) CHR ''0''"
      by (simp add: st replicate_append_same)
    finally have "s = stripTrailingZeros s @ replicate (Suc j) CHR ''0''" .
    moreover have "stripTrailingZeros s = [] \<or> last (stripTrailingZeros s) \<noteq> CHR ''0''"
      using j(2) by (simp only: st)
    ultimately show ?thesis by blast
  qed
qed

lemma digitsValue_zeros: "digitsValue (s @ replicate j CHR ''0'') = digitsValue s * 10 ^ j"
proof (induction j)
  case 0
  then show ?case by simp
next
  case (Suc j)
  have "s @ replicate (Suc j) CHR ''0'' = (s @ replicate j CHR ''0'') @ [CHR ''0'']"
    by (simp add: replicate_append_same)
  then have "digitsValue (s @ replicate (Suc j) CHR ''0'') = digitsValue (s @ replicate j CHR ''0'') * 10"
    by (simp only: digitsValue_snoc) simp
  then show ?case using Suc by simp
qed

section \<open>Parsing the output of String\<close>

lemma leadingRune_digit:
  assumes "isDigit c"
  shows "leadingRune spaceRunes (c # cs) = 0" "leadingRune (map rev spaceRunes) (c # cs) = 0"
proof -
  have ne: "c \<noteq> CHR 0x09" "c \<noteq> CHR 0x0A" "c \<noteq> CHR 0x0B" "c \<noteq> CHR 0x0C" "c \<noteq> CHR 0x0D"
    "c \<noteq> CHR 0x20" "c \<noteq> CHR 0xC2" "c \<noteq> CHR 0xE1" "c \<noteq> CHR 0xE2" "c \<noteq> CHR 0xE3"
    "c \<noteq> CHR 0x85" "c \<noteq> CHR 0xA0" "c \<noteq> CHR 0x80" "c \<noteq> CHR 0x81" "c \<noteq> CHR 0x82"
    "c \<noteq> CHR 0x83" "c \<noteq> CHR 0x84" "c \<noteq> CHR 0x86" "c \<noteq> CHR 0x87" "c \<noteq> CHR 0x88"
    "c \<noteq> CHR 0x89" "c \<noteq> CHR 0x8A" "c \<noteq> CHR 0xA8" "c \<noteq> CHR 0xA9" "c \<noteq> CHR 0xAF"
    "c \<noteq> CHR 0x9F"
    using assms by (auto simp add: isDigit_def)
  show "leadingRune spaceRunes (c # cs) = 0"
    using ne by (simp add: leadingRune_def spaceRunes_def)
  show "leadingRune (map rev spaceRunes) (c # cs) = 0"
    using ne by (simp add: leadingRune_def spaceRunes_def)
qed

lemma prepareString_digits:
  assumes "x \<noteq> []" "isDigit (hd x)" "isDigit (last x)"
  shows "prepareString x = (x, 0, False)"
proof -
  obtain c cs where x: "x = c # cs" using assms(1) by (cases x) simp_all
  have c: "isDigit c" using assms(2) x by simp
  have hd_ne: "hd x \<noteq> CHR 0x22" "hd x \<noteq> CHR ''-''" "hd x \<noteq> CHR ''+''"
    using assms(2) by (auto simp add: isDigit_def)
  have last_ne: "last x \<noteq> CHR 0x22" using assms(3) by (auto simp add: isDigit_def)
  have l: "trimLeftSpace x = x"
    unfolding trimLeftSpace_def x by (subst trimRunes.simps) (simp add: leadingRune_digit [OF c])
  obtain d ds where r: "rev x = d # ds" using assms(1) by (cases "rev x") simp_all
  have "d = last x" using r by (metis last_rev list.sel(1) rev_rev_ident rev_is_Nil_conv list.distinct(1))
  then have d: "isDigit d" using assms(3) by simp
  have "trimRunes (map rev spaceRunes) (rev x) = rev x"
    unfolding r by (subst trimRunes.simps) (simp add: leadingRune_digit [OF d])
  then have t: "trimRightSpace x = x" by (simp add: trimRightSpace_def)
  show ?thesis
    using assms(1) hd_ne last_ne by (simp add: prepareString_def Let_def l t)
qed


lemma scan_digit_string:
  assumes "list_all isDigit x" "x \<noteq> []" "hd x \<noteq> CHR ''0''"
  shows "scanDigits (x @ rest) i [] dp fnz = scanDigits rest (i + int (length x)) x dp i"
proof -
  obtain c ds where x: "x = c # ds" using assms(2) by (cases x) simp_all
  have c: "isDigit c" "c \<noteq> CHR ''0''" and ds: "list_all isDigit ds" using assms x by simp_all
  have "scanDigits (x @ rest) i [] dp fnz = scanDigits (ds @ rest) (i + 1) [c] dp i"
    unfolding x using c by simp
  also have "\<dots> = scanDigits rest (i + 1 + int (length ds)) ([c] @ ds) dp i"
    using ds by (intro scan_digits_app) simp_all
  finally show ?thesis by (simp add: x add.assoc)
qed

lemma parseValue_plain:
  assumes "list_all isDigit x" "x \<noteq> []" "hd x \<noteq> CHR ''0''"
  shows "parseValue x =
     Inr (stripTrailingZeros x, i32 (0 + i32 (int (length x) - int (length (stripTrailingZeros x)))))"
proof -
  have "scanDigits x 0 [] (- 1) (- 1) = Inr (x, - 1, 0, 0)"
    using scan_digit_string [OF assms, of "[]" 0 "- 1" "- 1"] by simp
  then have "removeLeadingZeros x = Inr (x, int (length x), 0)"
    by (simp add: removeLeadingZeros_def)
  then show ?thesis by (simp add: parseValue_def removeTrailingZerosString_def)
qed

lemma parseValue_leading_zero:
  assumes "list_all isDigit s" "s \<noteq> []" "hd s \<noteq> CHR ''0''"
  shows "parseValue (''0'' @ [delim] @ replicate z CHR ''0'' @ s) =
     Inr (stripTrailingZeros s, i32 (0 + i32 (- int z - int (length (stripTrailingZeros s)))))"
proof -
  have "scanDigits (''0'' @ [delim] @ replicate z CHR ''0'' @ s) 0 [] (- 1) (- 1) =
        scanDigits (delim # replicate z CHR ''0'' @ s) 1 [] (- 1) (- 1)"
    by (simp add: isDigit_zero)
  also have "\<dots> = scanDigits (replicate z CHR ''0'' @ s) 2 [] 1 (- 1)"
    by (simp only: scan_delim) simp
  also have "\<dots> = scanDigits s (2 + int z) [] 1 (- 1)"
    by (rule scan_zeros)
  also have "\<dots> = Inr (s, 1, 2 + int z, 0)"
    using scan_digit_string [OF assms, of "[]" "2 + int z" 1 "- 1"] by simp
  finally have "removeLeadingZeros (''0'' @ [delim] @ replicate z CHR ''0'' @ s) = Inr (s, - int z, 0)"
    by (simp add: removeLeadingZeros_def)
  then show ?thesis by (simp add: parseValue_def removeTrailingZerosString_def)
qed

lemma parseValue_inner_delim:
  assumes "list_all isDigit s" "hd s \<noteq> CHR ''0''" "0 < d" "d < length s"
  shows "parseValue (take d s @ [delim] @ drop d s) =
     Inr (stripTrailingZeros s, i32 (0 + i32 (int d - int (length (stripTrailingZeros s)))))"
proof -
  have sne: "s \<noteq> []" using assms(4) by auto
  have t: "list_all isDigit (take d s)" "take d s \<noteq> []" "hd (take d s) \<noteq> CHR ''0''"
    using assms sne by (simp_all add: digits_take hd_take)
  have dr: "list_all isDigit (drop d s)" using assms(1) by (rule digits_drop)
  have len: "int (length (take d s)) = int d" using assms(4) by simp
  have "scanDigits (take d s @ [delim] @ drop d s) 0 [] (- 1) (- 1) =
        scanDigits ([delim] @ drop d s) (0 + int (length (take d s))) (take d s) (- 1) 0"
    by (rule scan_digit_string [OF t])
  also have "\<dots> = scanDigits (delim # drop d s) (int d) (take d s) (- 1) 0"
    using len by (simp del: scanDigits.simps)
  also have "\<dots> = scanDigits (drop d s @ []) (int d + 1) (take d s) (int d) 0"
    by (simp only: scan_delim) simp
  also have "\<dots> = scanDigits [] (int d + 1 + int (length (drop d s))) (take d s @ drop d s) (int d) 0"
    using dr t(2) by (rule scan_digits_app)
  finally have "scanDigits (take d s @ [delim] @ drop d s) 0 [] (- 1) (- 1) = Inr (s, int d, 0, 0)"
    by simp
  then have "removeLeadingZeros (take d s @ [delim] @ drop d s) = Inr (s, int d, 0)"
    using assms(3) by (simp add: removeLeadingZeros_def)
  then show ?thesis by (simp add: parseValue_def removeTrailingZerosString_def)
qed

lemma digitsInMaxMantissa_eq: "digitsInMaxMantissa = 17"
  by (simp add: digitsInMaxMantissa_def eval_simps)

lemma fromStringAndExp_short:
  assumes "s \<noteq> []" "length s \<le> 17" "ParseUint s = Some u"
  shows "fromStringAndExp s e = Inr (adjustMantExp u e)"
  using assms by (simp add: fromStringAndExp_def Let_def digitsInMaxMantissa_eq)

lemma FromString_digits:
  assumes "x \<noteq> []" "isDigit (hd x)" "isDigit (last x)" "parseValue x = Inr (p, e)"
  shows "FromString viaFloat x = fromStringAndExp p e"
  using assms(1,4) by (simp add: FromString_def prepareString_digits [OF assms(1,2,3)])

lemma FromString_zero: "FromString viaFloat ''0'' = Inr zero"
proof -
  have "parseValue ''0'' = Inr ([], 0)"
    by (simp add: parseValue_def removeLeadingZeros_def removeTrailingZerosString_def isDigit_def
        strip_id i32_def)
  then have "FromString viaFloat ''0'' = fromStringAndExp [] 0"
    by (intro FromString_digits) (simp_all add: isDigit_def)
  then show ?thesis by (simp add: fromStringAndExp_def)
qed

lemma list_all_last: "list_all P xs \<Longrightarrow> xs \<noteq> [] \<Longrightarrow> P (last xs)"
  by (simp add: list_all_iff)

lemma list_all_hd: "list_all P xs \<Longrightarrow> xs \<noteq> [] \<Longrightarrow> P (hd xs)"
  by (simp add: list_all_iff)

lemma String_roundtrip: "FromString viaFloat (String v) = Inr (Normalized v)"
proof (cases "mant v = 0")
  case True
  then have "String v = ''0''" by (simp add: String_closed mant_Normalized_zero_iff)
  then show ?thesis using True by (simp add: FromString_zero Normalized_zero)
next
  case False
  define m where "m = mant (Normalized v)"
  define e where "e = exp (Normalized v)"
  define s where "s = FormatUint m"
  from False obtain m' e' where n: "mant (Normalized v) = m'" "exp (Normalized v) = e'"
    "0 < m'" "e' \<le> 128" "m' mod 10 \<noteq> 0 \<or> e' = 128"
    by (rule Normalized_nonzero)
  have m0: "0 < m" and m56: "m < 2 ^ 56" and er: "- 127 \<le> e" "e \<le> 128"
    and norm: "m mod 10 \<noteq> 0 \<or> e = 128"
    using n mant_lt [of "Normalized v"] exp_range [of "Normalized v"] by (simp_all add: m_def e_def)
  have N: "Normalized v = fromMantAndExp m e"
    unfolding m_def e_def by (rule from_split [symmetric])
  have sd: "list_all isDigit s" and sne: "s \<noteq> []" and shd: "hd s \<noteq> CHR ''0''"
    and slen: "length s \<le> 17" and sparse: "ParseUint s = Some m"
    and slast: "last s = digitChar (m mod 10)"
    unfolding s_def using m0 m56
    by (simp_all add: FormatUint_digits FormatUint_nonempty hd_FormatUint FormatUint_mant last_FormatUint)
  define s0 where "s0 = stripTrailingZeros s"
  from strip_spec [of s] obtain j where
    j: "s = s0 @ replicate j CHR ''0''" and s0last: "s0 = [] \<or> last s0 \<noteq> CHR ''0''"
    unfolding s0_def by blast
  have s0ne: "s0 \<noteq> []"
  proof
    assume "s0 = []"
    then have "s = replicate j CHR ''0''" using j by simp
    then have "hd s = CHR ''0''" using sne by (cases j) simp_all
    with shd show False by simp
  qed
  have s0d: "list_all isDigit s0" using sd j by (metis list_all_append)
  have s0len: "int (length s) = int (length s0) + int j" using j by (metis length_append length_replicate of_nat_add)
  have mval: "m = digitsValue s0 * 10 ^ j"
    using digitsValue_zeros [of s0 j] j digitsValue_FormatUint [of m] by (simp add: s_def)
  define m0 where "m0 = digitsValue s0"
  have m0pos: "0 < m0" using m0 mval by (cases "m0 = 0") (simp_all add: m0_def)
  have "m0 \<le> m" using mval by (simp add: m0_def)
  then have s0parse: "ParseUint s0 = Some m0"
    using s0ne s0d m56 by (simp add: ParseUint_def m0_def)
  have s0short: "length s0 \<le> 17" using slen s0len by simp
  have jpos: "0 < j \<Longrightarrow> e = 128"
  proof -
    assume "0 < j"
    then have "last s = CHR ''0''" using j by (cases j) simp_all
    then have "m mod 10 = 0" using slast digitChar_zero_iff [of "m mod 10"] by simp
    with norm show "e = 128" by simp
  qed
  have core: "fromStringAndExp s0 (e + int j) = Inr (Normalized v)"
  proof (cases "j = 0")
    case True
    then have "m0 = m" using mval by (simp add: m0_def)
    then have "adjustMantExp m0 (e + int j) = fromMantAndExp m e"
      using True m0 m56 er by (simp add: adjustMantExp_id consts_simps)
    then show ?thesis using fromStringAndExp_short [OF s0ne s0short s0parse] by (simp add: N)
  next
    case False
    then have e: "e = 128" using jpos by simp
    have "m0 * 10 ^ j < 2 ^ 56" using mval m56 by (simp add: m0_def)
    from adjustMantExp_scale [OF m0pos this]
    have "adjustMantExp m0 (e + int j) = fromMantAndExp m e" using mval by (simp add: e m0_def)
    then show ?thesis using fromStringAndExp_short [OF s0ne s0short s0parse] by (simp add: N)
  qed
  have str: "String v =
     (if e \<ge> 0 then s @ replicate (nat e) CHR ''0''
      else if int (length s) + e \<le> 0
        then ''0'' @ [delim] @ replicate (nat (- (int (length s) + e))) CHR ''0'' @ s
      else take (nat (int (length s) + e)) s @ [delim] @ drop (nat (int (length s) + e)) s)"
    using m0 by (simp add: String_closed Let_def m_def [symmetric] e_def [symmetric] s_def [symmetric])
  show ?thesis
  proof (cases "e \<ge> 0")
    case True
    define x where "x = s @ replicate (nat e) CHR ''0''"
    have xd: "list_all isDigit x" using sd by (simp add: x_def digits_replicate)
    have xne: "x \<noteq> []" using sne by (simp add: x_def)
    have xhd: "hd x \<noteq> CHR ''0''" using shd sne by (simp add: x_def)
    have xstrip: "stripTrailingZeros x = s0" by (simp add: x_def strip_zeros s0_def)
    have "int (length x) - int (length s0) = e + int j" using True s0len by (simp add: x_def)
    moreover have "j \<le> 17" using s0len slen by simp
    ultimately have ex: "i32 (0 + i32 (int (length x) - int (length s0))) = e + int j"
      using er by (simp add: i32_small)
    have "parseValue x = Inr (s0, e + int j)"
      using parseValue_plain [OF xd xne xhd] by (simp only: xstrip ex)
    then have "FromString viaFloat x = fromStringAndExp s0 (e + int j)"
      using xne xd by (intro FromString_digits) (simp_all add: list_all_hd list_all_last)
    then show ?thesis using True by (simp add: str x_def [symmetric] core)
  next
    case neg: False
    then have j0: "j = 0" using jpos by (cases "j = 0") simp_all
    then have s0s: "s0 = s" using j by simp
    then have strip: "stripTrailingZeros s = s" by (simp add: s0_def)
    have core': "fromStringAndExp s e = Inr (Normalized v)" using core j0 s0s by simp
    show ?thesis
    proof (cases "int (length s) + e \<le> 0")
      case True
      define z where "z = nat (- (int (length s) + e))"
      define x where "x = ''0'' @ [delim] @ replicate z CHR ''0'' @ s"
      have "- int z - int (length s) = e" using True by (simp add: z_def)
      then have ex: "i32 (0 + i32 (- int z - int (length s))) = e"
        using er by (simp add: i32_small)
      have "parseValue x = Inr (s, e)"
        unfolding x_def using parseValue_leading_zero [OF sd sne shd, of z] by (simp only: strip ex)
      moreover have "x \<noteq> []" "isDigit (hd x)" "isDigit (last x)"
        using sne list_all_last [OF sd sne] by (simp_all add: x_def isDigit_zero)
      ultimately have "FromString viaFloat x = fromStringAndExp s e"
        by (intro FromString_digits)
      then show ?thesis using neg True by (simp add: str x_def z_def core')
    next
      case False
      define d where "d = nat (int (length s) + e)"
      define x where "x = take d s @ [delim] @ drop d s"
      have d: "0 < d" "d < length s" "int d - int (length s) = e" using False neg by (simp_all add: d_def)
      then have ex: "i32 (0 + i32 (int d - int (length s))) = e"
        using er by (simp add: i32_small)
      have "parseValue x = Inr (s, e)"
        unfolding x_def using parseValue_inner_delim [OF sd shd d(1,2)] by (simp only: strip ex)
      moreover have "x \<noteq> []" "isDigit (hd x)" "isDigit (last x)"
        using sne d list_all_last [OF sd sne] list_all_hd [OF sd sne]
        by (simp_all add: x_def hd_append)
      ultimately have "FromString viaFloat x = fromStringAndExp s e"
        by (intro FromString_digits)
      then show ?thesis using neg False by (simp add: str x_def d_def core')
    qed
  qed
qed


text \<open>
  C3.  For every value, parsing the output of \<^verbatim>\<open>String\<close> succeeds and gives back the
  normalized value, bit for bit.  The strict scan accepts the string, so the float
  retry \<open>viaFloat\<close> is never consulted.
\<close>

theorem C3_String_roundtrip: "FromString viaFloat (String v) = Inr (Normalized v)"
  by (rule String_roundtrip)

section \<open>Division with remainder\<close>






text \<open>
  The early return of \<^verbatim>\<open>DivMod\<close>: when the division of the rescaled mantissa leaves no
  remainder, the remainder returned is zero although \<^verbatim>\<open>adjustMantExp\<close> cuts the
  quotient to the mantissa width.  \<^verbatim>\<open>maxMantissa\<close> divided by 2 gives the quotient
  \<open>36028797018963967\<close> and the remainder 0, and \<open>2 * 36028797018963967 + 0\<close> is
  \<open>maxMantissa - 1\<close>.
\<close>

lemma DivMod_early_return_truncates:
  "DivMod (fromMantAndExp maxMantissa 0) (fromMantAndExp 2 0) prec =
     Inr (fromMantAndExp 36028797018963967 0, zero) \<and>
   Mul (fromMantAndExp 2 0) (fromMantAndExp 36028797018963967 0) =
     Inr (fromMantAndExp (maxMantissa - 1) 0)"
  by (simp add: eval_simps DivMod_def divMod_def from_eq_iff)



end
